theory Spec2Isabelle
  imports Main
begin

section \<open>Data model of package urlcheck\<close>

text \<open>
  The Go struct \<^verbatim>\<open>Result\<close> of \<^verbatim>\<open>internal/urlcheck/checker.go\<close>. Go's 64-bit \<^verbatim>\<open>int\<close>
  is modelled as \<^typ>\<open>int\<close>. The only arithmetic of the code is \<^verbatim>\<open>attempts++\<close>, and the
  counter stays at most \<^verbatim>\<open>retries + 1\<close>: for a retry budget below \<open>2\<^sup>6\<^sup>3 - 1\<close> it
  never reaches the point where the machine integer wraps (lemma \<open>checkOne_counter_fits\<close>).
\<close>

record Result =
  URL :: string
  OK :: bool
  Status :: int
  Error :: string
  Attempts :: int

text \<open>The zero value of \<^verbatim>\<open>Result\<close>, as \<^verbatim>\<open>make([]Result, n)\<close> fills a slice.\<close>

definition zeroResult :: Result where
  "zeroResult = \<lparr>URL = [], OK = False, Status = 0, Error = [], Attempts = 0\<rparr>"

text \<open>
  The struct \<^verbatim>\<open>Checker\<close>. The HTTP client is a pointer in the source; here it is a
  tag telling the default client from one the caller supplies. Durations are nanoseconds.
\<close>

datatype http_client = DefaultClient | CustomClient nat

record Checker =
  client :: http_client
  concurrency :: int
  timeout :: int
  retries :: int

definition second :: int where
  "second = 1000000000"

definition NewChecker :: "int \<Rightarrow> int \<Rightarrow> int \<Rightarrow> http_client option \<Rightarrow> Checker" where
  "NewChecker concurrency0 timeout0 retries0 client0 =
     \<lparr>client = (case client0 of None \<Rightarrow> DefaultClient | Some cl \<Rightarrow> cl),
      concurrency = (if concurrency0 < 1 then 1 else concurrency0),
      timeout = (if timeout0 \<le> 0 then 5 * second else timeout0),
      retries = (if retries0 < 0 then 0 else retries0)\<rparr>"

text \<open>
  A Go \<^verbatim>\<open>error\<close> value, seen through the three observations the checker makes of it:
  \<^verbatim>\<open>errors.Is(err, context.DeadlineExceeded)\<close>, \<^verbatim>\<open>errors.As(err, &netErr)\<close> for a
  \<^verbatim>\<open>net.Error\<close>, and \<^verbatim>\<open>err.Error()\<close>.
\<close>

record go_error =
  isDeadlineExceeded :: bool
  asNetError :: bool
  errorText :: string

text \<open>
  What \<^verbatim>\<open>c.client.Do(req)\<close> hands back: an error, or a response with its status code.
\<close>

datatype reply = Failed go_error | Response int

text \<open>
  The error that \<^verbatim>\<open>c.client.Do(req)\<close> returns is, for every failure, a \<^verbatim>\<open>*url.Error\<close>
  of the standard library that wraps the cause: the documentation of \<^verbatim>\<open>Client.Do\<close> says
  so. A \<^verbatim>\<open>*url.Error\<close> has the methods \<^verbatim>\<open>Timeout\<close> and \<^verbatim>\<open>Temporary\<close>, so it is itself
  a \<^verbatim>\<open>net.Error\<close> and \<^verbatim>\<open>errors.As\<close> stops at it; \<^verbatim>\<open>errors.Is\<close> goes on to the cause
  through \<^verbatim>\<open>Unwrap\<close>; and its text is the operation, the quoted URL and the text of the
  cause. \<open>goQuote\<close> is \<^verbatim>\<open>strconv.Quote\<close> on a text that needs no escape.
\<close>

definition goQuote :: "string \<Rightarrow> string" where
  "goQuote s = CHR 0x22 # s @ [CHR 0x22]"

definition urlError :: "string \<Rightarrow> string \<Rightarrow> go_error \<Rightarrow> go_error" where
  "urlError op url cause =
     \<lparr>isDeadlineExceeded = isDeadlineExceeded cause,
      asNetError = True,
      errorText = op @ '' '' @ goQuote url @ '': '' @ errorText cause\<rparr>"

section \<open>Retry classification and the single-URL check\<close>

definition shouldRetry :: "go_error \<Rightarrow> bool" where
  "shouldRetry err =
     (if isDeadlineExceeded err then False
      else if asNetError err then True
      else False)"

text \<open>
  The tail of \<^verbatim>\<open>checkOne\<close>, reached by \<^verbatim>\<open>break\<close> or when the loop condition fails:
  the result without a response, carrying the text of \<^verbatim>\<open>lastErr\<close> when there is one.
\<close>

definition noResponse :: "string \<Rightarrow> int \<Rightarrow> go_error option \<Rightarrow> Result" where
  "noResponse target attempts lastErr =
     \<lparr>URL = target, OK = False, Status = 0,
      Error = (case lastErr of None \<Rightarrow> [] | Some e \<Rightarrow> errorText e),
      Attempts = attempts\<rparr>"

text \<open>
  The loop of \<^verbatim>\<open>checkOne\<close>, with the loop variables \<^verbatim>\<open>attempts\<close> and \<^verbatim>\<open>lastErr\<close>
  as arguments. The two library calls are parameters: \<open>newRequest target\<close> is the error of
  \<^verbatim>\<open>http.NewRequestWithContext(reqCtx, http.MethodGet, target, nil)\<close>, if any (the request
  context is never nil, so the outcome depends on the target alone), and \<open>doReq k\<close> is
  what \<^verbatim>\<open>c.client.Do(req)\<close> returns on the attempt that raised the counter to \<open>k\<close>. The
  per-attempt context and the draining and closing of the body have no effect on the
  result beyond what \<open>doReq\<close> returns.
\<close>

function checkOne_loop ::
  "Checker \<Rightarrow> (string \<Rightarrow> go_error option) \<Rightarrow> (int \<Rightarrow> reply) \<Rightarrow> string
     \<Rightarrow> int \<Rightarrow> go_error option \<Rightarrow> Result" where
  "checkOne_loop c newRequest doReq target attempts lastErr =
     (if attempts \<le> retries c then
        (case newRequest target of
           Some err \<Rightarrow> noResponse target (attempts + 1) (Some err)
         | None \<Rightarrow>
            (case doReq (attempts + 1) of
               Failed err \<Rightarrow>
                 if shouldRetry err \<and> attempts + 1 \<le> retries c
                 then checkOne_loop c newRequest doReq target (attempts + 1) (Some err)
                 else noResponse target (attempts + 1) (Some err)
             | Response code \<Rightarrow>
                 \<lparr>URL = target, OK = (200 \<le> code \<and> code < 400), Status = code,
                  Error = [], Attempts = attempts + 1\<rparr>))
      else noResponse target attempts lastErr)"
  by pat_completeness auto
termination
  by (relation "measure (\<lambda>(c, newRequest, doReq, target, attempts, lastErr).
        nat (retries c - attempts))") auto

declare checkOne_loop.simps [simp del]

definition checkOne ::
  "Checker \<Rightarrow> (string \<Rightarrow> go_error option) \<Rightarrow> (int \<Rightarrow> reply) \<Rightarrow> string \<Rightarrow> Result" where
  "checkOne c newRequest doReq target = checkOne_loop c newRequest doReq target 0 None"

section \<open>The batch check: worker pool, dispatcher and collector\<close>

text \<open>
  A \<^verbatim>\<open>context.Context\<close> as \<^verbatim>\<open>Check\<close> uses it: \<^verbatim>\<open>ctx.Err()\<close> is nil until the context
  is done, then \<^verbatim>\<open>context.Canceled\<close> or \<^verbatim>\<open>context.DeadlineExceeded\<close> for good, and
  \<^verbatim>\<open>ctx.Done()\<close> is closed exactly when \<^verbatim>\<open>ctx.Err()\<close> is not nil.
  \<^verbatim>\<open>context.Background()\<close> is never done.
\<close>

datatype ctx_err = Canceled | DeadlineExceeded

datatype go_context = Background | Cancellable "ctx_err option"

fun ctx_Err :: "go_context \<Rightarrow> ctx_err option" where
  "ctx_Err Background = None"
| "ctx_Err (Cancellable e) = e"

text \<open>
  Where a worker goroutine stands: blocked in \<^verbatim>\<open>for j := range jobs\<close>; holding the job
  \<^verbatim>\<open>{idx, url}\<close>, from its receipt to the send of the \<^verbatim>\<open>workerResult\<close> on \<^verbatim>\<open>out\<close>
  (this is where \<^verbatim>\<open>checkOne\<close> runs); or past the loop, \<^verbatim>\<open>wg.Done()\<close> called.
\<close>

datatype worker = Receiving | Running nat string | Exited

fun isRunning :: "worker \<Rightarrow> bool" where
  "isRunning (Running idx url) = True"
| "isRunning w = False"

text \<open>How a call of \<^verbatim>\<open>Check\<close> ends: with its two return values, or in a run-time panic.\<close>

datatype outcome = Returned "Result list" "ctx_err option" | Panicked

text \<open>
  The state of one call of \<^verbatim>\<open>Check\<close>: the context, the slice \<^verbatim>\<open>results\<close>, the index
  the dispatcher's loop over \<^verbatim>\<open>urls\<close> has reached, whether \<^verbatim>\<open>jobs\<close> is closed (the
  dispatcher goroutine has returned), the worker goroutines, the buffer of the channel
  \<^verbatim>\<open>out\<close> and whether it is closed, and the outcome once the call has ended.
\<close>

record check_state =
  ctx :: go_context
  results :: "Result list"
  nextIdx :: nat
  jobsClosed :: bool
  workers :: "worker list"
  out :: "(nat \<times> Result) list"
  outClosed :: bool
  outcome :: "outcome option"

text \<open>
  \<^verbatim>\<open>Check\<close> up to the point where all goroutines are started: a nil context is replaced
  by the background context, \<^verbatim>\<open>results\<close> holds one zero value per URL, and
  \<^verbatim>\<open>c.concurrency\<close> workers wait for a job.
\<close>

definition Check_init :: "Checker \<Rightarrow> go_context option \<Rightarrow> string list \<Rightarrow> check_state" where
  "Check_init c ctx0 urls =
     \<lparr>ctx = (case ctx0 of None \<Rightarrow> Background | Some cx \<Rightarrow> cx),
      results = replicate (length urls) zeroResult,
      nextIdx = 0,
      jobsClosed = False,
      workers = replicate (nat (concurrency c)) Receiving,
      out = [],
      outClosed = False,
      outcome = None\<rparr>"

text \<open>The last three lines of \<^verbatim>\<open>Check\<close>: the error returned beside the results.\<close>

definition Check_err :: "go_context \<Rightarrow> ctx_err option" where
  "Check_err cx =
     (case ctx_Err cx of
        None \<Rightarrow> None
      | Some err \<Rightarrow> if err \<noteq> Canceled then Some err else None)"

text \<open>
  The atomic steps of the goroutines, and of the caller of \<^verbatim>\<open>Check\<close> on the context:
  \<^item> \<open>Cancel\<close>, \<open>Deadline\<close>: the context is cancelled, or its deadline passes;
  \<^item> \<open>Dispatch w\<close>: the dispatcher's \<^verbatim>\<open>select\<close> takes the send on the unbuffered channel
    \<^verbatim>\<open>jobs\<close>, which meets the receive of worker \<open>w\<close>;
  \<^item> \<open>DispatchQuit\<close>: the \<^verbatim>\<open>select\<close> takes \<^verbatim>\<open><-ctx.Done()\<close>, the dispatcher returns and
    its deferred \<^verbatim>\<open>close(jobs)\<close> runs;
  \<^item> \<open>DispatchEnd\<close>: the loop over \<^verbatim>\<open>urls\<close> is over, and \<^verbatim>\<open>close(jobs)\<close> runs;
  \<^item> \<open>Finish w doReq\<close>: worker \<open>w\<close> completes \<^verbatim>\<open>checkOne\<close>, its requests answered as
    \<open>doReq\<close> says, and sends the result on \<^verbatim>\<open>out\<close> (capacity \<^verbatim>\<open>len(urls)\<close>);
  \<^item> \<open>Leave w\<close>: worker \<open>w\<close> finds \<^verbatim>\<open>jobs\<close> closed, leaves its loop and calls \<^verbatim>\<open>wg.Done()\<close>;
  \<^item> \<open>CloseOut\<close>: \<^verbatim>\<open>wg.Wait()\<close> returns and \<^verbatim>\<open>close(out)\<close> runs;
  \<^item> \<open>Store\<close>: the caller receives from \<^verbatim>\<open>out\<close> and assigns \<^verbatim>\<open>results[r.idx] = r.res\<close>;
  \<^item> \<open>Return\<close>: \<^verbatim>\<open>out\<close> is closed and empty, the caller's loop ends and \<^verbatim>\<open>Check\<close> returns.
\<close>

datatype event =
    Cancel
  | Deadline
  | Dispatch nat
  | DispatchQuit
  | DispatchEnd
  | Finish nat "int \<Rightarrow> reply"
  | Leave nat
  | CloseOut
  | Store
  | Return

fun programEvent :: "event \<Rightarrow> bool" where
  "programEvent Cancel = False"
| "programEvent Deadline = False"
| "programEvent ev = True"

text \<open>
  One step: \<open>None\<close> when the step cannot be taken in the state (the goroutine is not at
  that point, or it is blocked). A send on a closed channel and an index out of range
  are the panics of the Go run time. Nothing happens once the call has ended.
\<close>

definition step ::
  "Checker \<Rightarrow> (string \<Rightarrow> go_error option) \<Rightarrow> string list \<Rightarrow> event \<Rightarrow> check_state
     \<Rightarrow> check_state option" where
  "step c newRequest urls ev s =
     (if outcome s \<noteq> None then None
      else case ev of
        Cancel \<Rightarrow>
          (case ctx s of
             Cancellable None \<Rightarrow> Some (s\<lparr>ctx := Cancellable (Some Canceled)\<rparr>)
           | _ \<Rightarrow> None)
      | Deadline \<Rightarrow>
          (case ctx s of
             Cancellable None \<Rightarrow> Some (s\<lparr>ctx := Cancellable (Some DeadlineExceeded)\<rparr>)
           | _ \<Rightarrow> None)
      | Dispatch w \<Rightarrow>
          if \<not> jobsClosed s \<and> nextIdx s < length urls \<and> w < length (workers s)
             \<and> workers s ! w = Receiving
          then Some (s\<lparr>workers := (workers s)[w := Running (nextIdx s) (urls ! nextIdx s)],
                       nextIdx := nextIdx s + 1\<rparr>)
          else None
      | DispatchQuit \<Rightarrow>
          if \<not> jobsClosed s \<and> nextIdx s < length urls \<and> ctx_Err (ctx s) \<noteq> None
          then Some (s\<lparr>jobsClosed := True\<rparr>)
          else None
      | DispatchEnd \<Rightarrow>
          if \<not> jobsClosed s \<and> nextIdx s = length urls
          then Some (s\<lparr>jobsClosed := True\<rparr>)
          else None
      | Finish w doReq \<Rightarrow>
          if w < length (workers s) then
            (case workers s ! w of
               Running idx url \<Rightarrow>
                 if outClosed s then Some (s\<lparr>outcome := Some Panicked\<rparr>)
                 else if length (out s) < length urls
                 then Some (s\<lparr>out := out s @ [(idx, checkOne c newRequest doReq url)],
                              workers := (workers s)[w := Receiving]\<rparr>)
                 else None
             | _ \<Rightarrow> None)
          else None
      | Leave w \<Rightarrow>
          if w < length (workers s) \<and> workers s ! w = Receiving \<and> jobsClosed s
          then Some (s\<lparr>workers := (workers s)[w := Exited]\<rparr>)
          else None
      | CloseOut \<Rightarrow>
          if \<not> outClosed s \<and> list_all (\<lambda>w. w = Exited) (workers s)
          then Some (s\<lparr>outClosed := True\<rparr>)
          else None
      | Store \<Rightarrow>
          (case out s of
             [] \<Rightarrow> None
           | (idx, res) # rest \<Rightarrow>
               if idx < length (results s)
               then Some (s\<lparr>results := (results s)[idx := res], out := rest\<rparr>)
               else Some (s\<lparr>outcome := Some Panicked\<rparr>))
      | Return \<Rightarrow>
          if out s = [] \<and> outClosed s
          then Some (s\<lparr>outcome := Some (Returned (results s) (Check_err (ctx s)))\<rparr>)
          else None)"

text \<open>A run: the steps of a schedule, one after the other; \<open>None\<close> if one cannot be taken.\<close>

fun exec ::
  "Checker \<Rightarrow> (string \<Rightarrow> go_error option) \<Rightarrow> string list \<Rightarrow> event list \<Rightarrow> check_state
     \<Rightarrow> check_state option" where
  "exec c newRequest urls [] s = Some s"
| "exec c newRequest urls (ev # evs) s =
     (case step c newRequest urls ev s of
        None \<Rightarrow> None
      | Some s' \<Rightarrow> exec c newRequest urls evs s')"

text \<open>
  \<^verbatim>\<open>Check\<close> under a schedule: the outcome the run has reached, \<open>None\<close> while the call has
  not ended (or when the schedule is not one the program can follow).
\<close>

definition Check ::
  "Checker \<Rightarrow> (string \<Rightarrow> go_error option) \<Rightarrow> event list \<Rightarrow> go_context option \<Rightarrow> string list
     \<Rightarrow> outcome option" where
  "Check c newRequest sched ctx0 urls =
     (case exec c newRequest urls sched (Check_init c ctx0 urls) of
        None \<Rightarrow> None
      | Some s \<Rightarrow> outcome s)"

text \<open>The slots of \<^verbatim>\<open>results\<close> that the steps of a run assign, in the order of the run.\<close>

fun writes ::
  "Checker \<Rightarrow> (string \<Rightarrow> go_error option) \<Rightarrow> string list \<Rightarrow> event list \<Rightarrow> check_state
     \<Rightarrow> nat list" where
  "writes c newRequest urls [] s = []"
| "writes c newRequest urls (ev # evs) s =
     (case step c newRequest urls ev s of
        None \<Rightarrow> []
      | Some s' \<Rightarrow>
          (case (ev, out s) of
             (Store, (idx, res) # rest) \<Rightarrow> if idx < length (results s) then [idx] else []
           | _ \<Rightarrow> [])
          @ writes c newRequest urls evs s')"

section \<open>The batch check, request by request\<close>

text \<open>
  Where a worker stands inside \<^verbatim>\<open>checkOne\<close>: not in the call; at the head of the loop
  with the values of \<^verbatim>\<open>attempts\<close> and \<^verbatim>\<open>lastErr\<close>; inside \<^verbatim>\<open>c.client.Do(req)\<close>, its
  request sent and not yet answered, with \<^verbatim>\<open>attempts\<close> already raised; or at the
  \<^verbatim>\<open>return\<close>, with the result in hand.
\<close>

datatype call_state =
    NotCalled
  | AtLoop int "go_error option"
  | AwaitingReply int
  | Returning Result

text \<open>
  The state of a call of \<^verbatim>\<open>Check\<close> with the calls of \<^verbatim>\<open>checkOne\<close> unfolded: the state
  of the goroutines as above, for each worker its place in \<^verbatim>\<open>checkOne\<close>, and the HTTP
  requests in flight, each with the worker that sent it and its URL. A request is in
  flight from the call of \<^verbatim>\<open>c.client.Do\<close> until that call has returned and, for a
  response, the body is drained and closed.
\<close>

record request_state =
  pool :: check_state
  calls :: "call_state list"
  wire :: "(nat \<times> string) list"

text \<open>
  The steps: a step \<open>Pool ev\<close> of the goroutines as above, but for \<open>Finish\<close>, which is
  now three kinds of step of a worker \<open>w\<close> that holds a job:
  \<^item> \<open>Attempt w\<close>: at the head of the loop. If \<^verbatim>\<open>attempts <= c.retries\<close> the worker raises
    \<^verbatim>\<open>attempts\<close> and builds the request; it leaves the loop if that fails, and calls
    \<^verbatim>\<open>c.client.Do\<close> otherwise, which puts the request in flight. If not, the loop is over.
  \<^item> \<open>Reply w r\<close>: \<^verbatim>\<open>c.client.Do\<close> returns \<open>r\<close>, and the request is no longer in flight.
    On an error the worker goes back to the head of the loop or leaves it, as
    \<^verbatim>\<open>shouldRetry\<close> and the budget say; on a response it has its result.
  \<^item> \<open>Emit w\<close>: \<^verbatim>\<open>checkOne\<close> has returned, and the worker sends the result on \<^verbatim>\<open>out\<close>.
\<close>

datatype request_event =
    Pool event
  | Attempt nat
  | Reply nat reply
  | Emit nat

text \<open>At the start no worker is inside \<^verbatim>\<open>checkOne\<close>, and no request is in flight.\<close>

definition reqInit :: "Checker \<Rightarrow> go_context option \<Rightarrow> string list \<Rightarrow> request_state" where
  "reqInit c ctx0 urls =
     \<lparr>pool = Check_init c ctx0 urls,
      calls = replicate (nat (concurrency c)) NotCalled,
      wire = []\<rparr>"

text \<open>
  One step. Handing a job to a worker puts it at the head of the loop with
  \<^verbatim>\<open>attempts = 0\<close> and no \<^verbatim>\<open>lastErr\<close>; the bodies of \<open>Attempt\<close> and \<open>Reply\<close> are the
  body of the loop of \<^verbatim>\<open>checkOne\<close>, cut at the call of \<^verbatim>\<open>c.client.Do\<close>; \<open>Emit\<close> is the send
  on \<^verbatim>\<open>out\<close>, with its panic on a closed channel and its wait on a full one.
\<close>

definition reqStep ::
  "Checker \<Rightarrow> (string \<Rightarrow> go_error option) \<Rightarrow> string list \<Rightarrow> request_event \<Rightarrow> request_state
     \<Rightarrow> request_state option" where
  "reqStep c newRequest urls ev s =
     (if outcome (pool s) \<noteq> None then None
      else case ev of
        Pool pev \<Rightarrow>
          (case pev of
             Finish w doReq \<Rightarrow> None
           | Dispatch w \<Rightarrow>
               (case step c newRequest urls (Dispatch w) (pool s) of
                  None \<Rightarrow> None
                | Some p \<Rightarrow> Some (s\<lparr>pool := p, calls := (calls s)[w := AtLoop 0 None]\<rparr>))
           | _ \<Rightarrow>
               (case step c newRequest urls pev (pool s) of
                  None \<Rightarrow> None
                | Some p \<Rightarrow> Some (s\<lparr>pool := p\<rparr>)))
      | Attempt w \<Rightarrow>
          if w < length (workers (pool s)) \<and> w < length (calls s) then
            (case (workers (pool s) ! w, calls s ! w) of
               (Running idx url, AtLoop attempts lastErr) \<Rightarrow>
                 if attempts \<le> retries c then
                   (case newRequest url of
                      Some err \<Rightarrow>
                        Some (s\<lparr>calls := (calls s)
                                [w := Returning (noResponse url (attempts + 1) (Some err))]\<rparr>)
                    | None \<Rightarrow>
                        Some (s\<lparr>calls := (calls s)[w := AwaitingReply (attempts + 1)],
                                wire := wire s @ [(w, url)]\<rparr>))
                 else Some (s\<lparr>calls := (calls s)
                              [w := Returning (noResponse url attempts lastErr)]\<rparr>)
             | _ \<Rightarrow> None)
          else None
      | Reply w r \<Rightarrow>
          if w < length (workers (pool s)) \<and> w < length (calls s) then
            (case (workers (pool s) ! w, calls s ! w) of
               (Running idx url, AwaitingReply attempts) \<Rightarrow>
                 Some (s\<lparr>calls := (calls s)
                         [w := (case r of
                                  Failed err \<Rightarrow>
                                    if shouldRetry err \<and> attempts \<le> retries c
                                    then AtLoop attempts (Some err)
                                    else Returning (noResponse url attempts (Some err))
                                | Response code \<Rightarrow>
                                    Returning \<lparr>URL = url, OK = (200 \<le> code \<and> code < 400),
                                               Status = code, Error = [],
                                               Attempts = attempts\<rparr>)],
                         wire := remove1 (w, url) (wire s)\<rparr>)
             | _ \<Rightarrow> None)
          else None
      | Emit w \<Rightarrow>
          if w < length (workers (pool s)) \<and> w < length (calls s) then
            (case (workers (pool s) ! w, calls s ! w) of
               (Running idx url, Returning res) \<Rightarrow>
                 if outClosed (pool s)
                 then Some (s\<lparr>pool := (pool s)\<lparr>outcome := Some Panicked\<rparr>\<rparr>)
                 else if length (out (pool s)) < length urls
                 then Some (s\<lparr>pool := (pool s)
                                \<lparr>out := out (pool s) @ [(idx, res)],
                                 workers := (workers (pool s))[w := Receiving]\<rparr>,
                              calls := (calls s)[w := NotCalled]\<rparr>)
                 else None
             | _ \<Rightarrow> None)
          else None)"

text \<open>A run, request by request: the steps of a schedule, one after the other.\<close>

fun reqExec ::
  "Checker \<Rightarrow> (string \<Rightarrow> go_error option) \<Rightarrow> string list \<Rightarrow> request_event list
     \<Rightarrow> request_state \<Rightarrow> request_state option" where
  "reqExec c newRequest urls [] s = Some s"
| "reqExec c newRequest urls (ev # evs) s =
     (case reqStep c newRequest urls ev s of
        None \<Rightarrow> None
      | Some s' \<Rightarrow> reqExec c newRequest urls evs s')"

section \<open>Invariants of a run of the batch check\<close>

text \<open>The sizes: one slot per URL, the dispatcher within the list, the pool as configured.\<close>

definition inv_shape :: "Checker \<Rightarrow> string list \<Rightarrow> check_state \<Rightarrow> bool" where
  "inv_shape c urls s \<longleftrightarrow>
     length (results s) = length urls \<and> nextIdx s \<le> length urls \<and>
     length (workers s) = nat (concurrency c)"

text \<open>
  A worker holds a job that was dispatched, with the URL of its index; its index is not
  in the channel \<^verbatim>\<open>out\<close>, and no other worker holds it.
\<close>

definition inv_workers :: "string list \<Rightarrow> check_state \<Rightarrow> bool" where
  "inv_workers urls s \<longleftrightarrow>
     (\<forall>w idx url. w < length (workers s) \<and> workers s ! w = Running idx url \<longrightarrow>
        idx < nextIdx s \<and> url = urls ! idx \<and> idx \<notin> fst ` set (out s) \<and>
        (\<forall>w' url'. w' < length (workers s) \<and> workers s ! w' = Running idx url' \<longrightarrow> w' = w))"

text \<open>
  The channel \<^verbatim>\<open>out\<close> holds each index at most once, and with it a result of
  \<^verbatim>\<open>checkOne\<close> for the URL of that index.
\<close>

definition inv_out ::
  "Checker \<Rightarrow> (string \<Rightarrow> go_error option) \<Rightarrow> string list \<Rightarrow> check_state \<Rightarrow> bool" where
  "inv_out c newRequest urls s \<longleftrightarrow>
     distinct (map fst (out s)) \<and>
     (\<forall>idx res. (idx, res) \<in> set (out s) \<longrightarrow>
        idx < nextIdx s \<and> (\<exists>doReq. res = checkOne c newRequest doReq (urls ! idx)))"

text \<open>The indices on their way: held by a worker, or in the channel \<^verbatim>\<open>out\<close>.\<close>

definition pendingIdx :: "check_state \<Rightarrow> nat set" where
  "pendingIdx s =
     {idx. \<exists>w url. w < length (workers s) \<and> workers s ! w = Running idx url}
       \<union> fst ` set (out s)"

text \<open>
  A slot that was not dispatched holds the zero value; a slot that was dispatched and is
  not on its way any more holds a result of \<^verbatim>\<open>checkOne\<close> for its URL.
\<close>

definition inv_results ::
  "Checker \<Rightarrow> (string \<Rightarrow> go_error option) \<Rightarrow> string list \<Rightarrow> check_state \<Rightarrow> bool" where
  "inv_results c newRequest urls s \<longleftrightarrow>
     (\<forall>i. i < length urls \<longrightarrow>
        (nextIdx s \<le> i \<longrightarrow> results s ! i = zeroResult) \<and>
        (i < nextIdx s \<and> i \<notin> pendingIdx s \<longrightarrow>
           (\<exists>doReq. results s ! i = checkOne c newRequest doReq (urls ! i))))"

text \<open>
  The order of the closings: \<^verbatim>\<open>jobs\<close> is closed after the last URL or after the context
  is done, a worker leaves after \<^verbatim>\<open>jobs\<close> is closed, and \<^verbatim>\<open>out\<close> is closed after all
  workers have left.
\<close>

definition inv_close :: "string list \<Rightarrow> check_state \<Rightarrow> bool" where
  "inv_close urls s \<longleftrightarrow>
     (jobsClosed s \<longrightarrow> nextIdx s = length urls \<or> ctx_Err (ctx s) \<noteq> None) \<and>
     (\<forall>w. w < length (workers s) \<and> workers s ! w = Exited \<longrightarrow> jobsClosed s) \<and>
     (outClosed s \<longrightarrow> (\<forall>w. w < length (workers s) \<longrightarrow> workers s ! w = Exited))"

text \<open>
  The call does not panic, and it returns the slice \<^verbatim>\<open>results\<close> with the error that the
  context gives at that moment, after \<^verbatim>\<open>out\<close> is closed and drained.
\<close>

definition inv_outcome :: "check_state \<Rightarrow> bool" where
  "inv_outcome s \<longleftrightarrow>
     (case outcome s of
        None \<Rightarrow> True
      | Some Panicked \<Rightarrow> False
      | Some (Returned res err) \<Rightarrow>
          res = results s \<and> err = Check_err (ctx s) \<and> out s = [] \<and> outClosed s)"

definition invariant ::
  "Checker \<Rightarrow> (string \<Rightarrow> go_error option) \<Rightarrow> string list \<Rightarrow> check_state \<Rightarrow> bool" where
  "invariant c newRequest urls s \<longleftrightarrow>
     inv_shape c urls s \<and> inv_workers urls s \<and> inv_out c newRequest urls s \<and>
     inv_results c newRequest urls s \<and> inv_close urls s \<and> inv_outcome s"

text \<open>
  The requests in flight: at most one for a worker, and only for a worker that is inside
  \<^verbatim>\<open>c.client.Do\<close> with a job for that URL. There is one entry of \<open>calls\<close> for each worker.
\<close>

definition inv_wire :: "request_state \<Rightarrow> bool" where
  "inv_wire s \<longleftrightarrow>
     length (calls s) = length (workers (pool s)) \<and>
     distinct (map fst (wire s)) \<and>
     (\<forall>w url. (w, url) \<in> set (wire s) \<longrightarrow>
        w < length (calls s) \<and> (\<exists>a. calls s ! w = AwaitingReply a) \<and>
        (\<exists>idx. workers (pool s) ! w = Running idx url))"

text \<open>
  A worker that holds a job is inside \<^verbatim>\<open>checkOne\<close>, and what it has done there is what
  \<^verbatim>\<open>checkOne_loop\<close> does: on the replies it has had so far, the whole call comes down to
  the loop at the worker's \<^verbatim>\<open>attempts\<close> and \<^verbatim>\<open>lastErr\<close>, and a result in hand is the
  result of \<^verbatim>\<open>checkOne\<close> for the worker's URL.
\<close>

definition inv_calls ::
  "Checker \<Rightarrow> (string \<Rightarrow> go_error option) \<Rightarrow> request_state \<Rightarrow> bool" where
  "inv_calls c newRequest s \<longleftrightarrow>
     (\<forall>w idx url. w < length (workers (pool s)) \<and> workers (pool s) ! w = Running idx url \<longrightarrow>
        (case calls s ! w of
           NotCalled \<Rightarrow> False
         | AtLoop a le \<Rightarrow>
             0 \<le> a \<and>
             (\<exists>h. \<forall>dr. (\<forall>k. 1 \<le> k \<and> k \<le> a \<longrightarrow> dr k = h k) \<longrightarrow>
                checkOne c newRequest dr url = checkOne_loop c newRequest dr url a le)
         | AwaitingReply a \<Rightarrow>
             1 \<le> a \<and> newRequest url = None \<and> a - 1 \<le> retries c \<and>
             (\<exists>h le. \<forall>dr. (\<forall>k. 1 \<le> k \<and> k < a \<longrightarrow> dr k = h k) \<longrightarrow>
                checkOne c newRequest dr url = checkOne_loop c newRequest dr url (a - 1) le)
         | Returning res \<Rightarrow> (\<exists>doReq. res = checkOne c newRequest doReq url)))"

text \<open>The other way round: a worker inside \<^verbatim>\<open>c.client.Do\<close> has its request in flight.\<close>

definition inv_sent :: "request_state \<Rightarrow> bool" where
  "inv_sent s \<longleftrightarrow>
     (\<forall>w idx url a. w < length (workers (pool s)) \<and> workers (pool s) ! w = Running idx url \<and>
        calls s ! w = AwaitingReply a \<longrightarrow> (w, url) \<in> set (wire s))"

definition inv_requests ::
  "Checker \<Rightarrow> (string \<Rightarrow> go_error option) \<Rightarrow> request_state \<Rightarrow> bool" where
  "inv_requests c newRequest s \<longleftrightarrow> inv_wire s \<and> inv_calls c newRequest s \<and> inv_sent s"

text \<open>
  The steps that remain before the call ends, counted generously: three for a URL not yet
  dispatched, two for a job held by a worker, one for a result in \<^verbatim>\<open>out\<close>, one for each
  closing, one for each worker that has not left, and one for the return.
\<close>

definition stepsLeft :: "string list \<Rightarrow> check_state \<Rightarrow> nat" where
  "stepsLeft urls s =
     3 * (length urls - nextIdx s) + 2 * length (filter isRunning (workers s))
     + length (out s) + (if jobsClosed s then 0 else 1)
     + length (filter (\<lambda>w. w \<noteq> Exited) (workers s))
     + (if outClosed s then 0 else 1) + (if outcome s = None then 1 else 0)"

section \<open>Properties of the single-URL check\<close>

text \<open>
  What a run of the loop that starts with the counter at \<open>a\<close> returns: the counter ends
  between \<open>a + 1\<close> and \<open>retries + 1\<close>, every attempt before the last one failed with a
  retryable error, and the last attempt decides the result.
\<close>

lemma checkOne_loop_spec:
  "a \<le> retries c \<Longrightarrow>
   URL (checkOne_loop c nr dr t a le) = t \<and>
   a + 1 \<le> Attempts (checkOne_loop c nr dr t a le) \<and>
   Attempts (checkOne_loop c nr dr t a le) \<le> retries c + 1 \<and>
   (\<forall>j. a < j \<and> j < Attempts (checkOne_loop c nr dr t a le) \<longrightarrow>
        (\<exists>e. dr j = Failed e \<and> shouldRetry e)) \<and>
   (case nr t of
      Some e \<Rightarrow> checkOne_loop c nr dr t a le = noResponse t (a + 1) (Some e)
    | None \<Rightarrow>
       (case dr (Attempts (checkOne_loop c nr dr t a le)) of
          Failed e \<Rightarrow>
            checkOne_loop c nr dr t a le =
              noResponse t (Attempts (checkOne_loop c nr dr t a le)) (Some e) \<and>
            (\<not> shouldRetry e \<or> Attempts (checkOne_loop c nr dr t a le) = retries c + 1)
        | Response code \<Rightarrow>
            checkOne_loop c nr dr t a le =
              \<lparr>URL = t, OK = (200 \<le> code \<and> code < 400), Status = code, Error = [],
               Attempts = Attempts (checkOne_loop c nr dr t a le)\<rparr>))"
proof (induction c nr dr t a le rule: checkOne_loop.induct)
  case (1 c nr dr t a le)
  note unf = checkOne_loop.simps [of c nr dr t a le]
  show ?case
  proof (cases "nr t")
    case (Some e)
    with "1.prems" show ?thesis by (auto simp add: unf noResponse_def)
  next
    case None
    show ?thesis
    proof (cases "dr (a + 1)")
      case (Response code)
      with None "1.prems" show ?thesis by (auto simp add: unf)
    next
      case (Failed e)
      show ?thesis
      proof (cases "shouldRetry e \<and> a + 1 \<le> retries c")
        case False
        with None Failed "1.prems" show ?thesis by (auto simp add: unf noResponse_def)
      next
        case True
        have eq: "checkOne_loop c nr dr t a le = checkOne_loop c nr dr t (a + 1) (Some e)"
          using None Failed True "1.prems" by (simp add: unf)
        have ih: "URL (checkOne_loop c nr dr t (a + 1) (Some e)) = t \<and>
   a + 1 + 1 \<le> Attempts (checkOne_loop c nr dr t (a + 1) (Some e)) \<and>
   Attempts (checkOne_loop c nr dr t (a + 1) (Some e)) \<le> retries c + 1 \<and>
   (\<forall>j. a + 1 < j \<and> j < Attempts (checkOne_loop c nr dr t (a + 1) (Some e)) \<longrightarrow>
        (\<exists>e. dr j = Failed e \<and> shouldRetry e)) \<and>
       (case dr (Attempts (checkOne_loop c nr dr t (a + 1) (Some e))) of
          Failed e' \<Rightarrow>
            checkOne_loop c nr dr t (a + 1) (Some e) =
              noResponse t (Attempts (checkOne_loop c nr dr t (a + 1) (Some e))) (Some e') \<and>
            (\<not> shouldRetry e' \<or> Attempts (checkOne_loop c nr dr t (a + 1) (Some e)) = retries c + 1)
        | Response code \<Rightarrow>
            checkOne_loop c nr dr t (a + 1) (Some e) =
              \<lparr>URL = t, OK = (200 \<le> code \<and> code < 400), Status = code, Error = [],
               Attempts = Attempts (checkOne_loop c nr dr t (a + 1) (Some e))\<rparr>)"
          using "1.IH"[OF "1.prems" None Failed] True None by simp
        have mid: "\<And>j. a < j \<Longrightarrow> j < Attempts (checkOne_loop c nr dr t (a + 1) (Some e)) \<Longrightarrow>
            (\<exists>e. dr j = Failed e \<and> shouldRetry e)"
        proof -
          fix j assume "a < j" "j < Attempts (checkOne_loop c nr dr t (a + 1) (Some e))"
          show "\<exists>e. dr j = Failed e \<and> shouldRetry e"
          proof (cases "j = a + 1")
            case True
            then show ?thesis using Failed \<open>shouldRetry e \<and> a + 1 \<le> retries c\<close> by simp
          next
            case False
            with \<open>a < j\<close> have "a + 1 < j" by simp
            then show ?thesis using ih \<open>j < Attempts (checkOne_loop c nr dr t (a + 1) (Some e))\<close> by blast
          qed
        qed
        show ?thesis unfolding eq using ih mid None by auto
      qed
    qed
  qed
qed

lemma checkOne_spec:
  assumes "0 \<le> retries c"
  shows "URL (checkOne c nr dr t) = t"
    and "1 \<le> Attempts (checkOne c nr dr t)"
    and "Attempts (checkOne c nr dr t) \<le> retries c + 1"
    and "\<And>j. 1 \<le> j \<Longrightarrow> j < Attempts (checkOne c nr dr t) \<Longrightarrow>
           \<exists>e. dr j = Failed e \<and> shouldRetry e"
    and "\<And>e. nr t = Some e \<Longrightarrow> checkOne c nr dr t = noResponse t 1 (Some e)"
    and "\<And>e. nr t = None \<Longrightarrow> dr (Attempts (checkOne c nr dr t)) = Failed e \<Longrightarrow>
           checkOne c nr dr t = noResponse t (Attempts (checkOne c nr dr t)) (Some e) \<and>
           (\<not> shouldRetry e \<or> Attempts (checkOne c nr dr t) = retries c + 1)"
    and "\<And>code. nr t = None \<Longrightarrow> dr (Attempts (checkOne c nr dr t)) = Response code \<Longrightarrow>
           checkOne c nr dr t =
             \<lparr>URL = t, OK = (200 \<le> code \<and> code < 400), Status = code, Error = [],
              Attempts = Attempts (checkOne c nr dr t)\<rparr>"
proof -
  note spec = checkOne_loop_spec [OF assms, of nr dr t None, folded checkOne_def]
  show "URL (checkOne c nr dr t) = t" using spec by simp
  show "1 \<le> Attempts (checkOne c nr dr t)" using spec by simp
  show "Attempts (checkOne c nr dr t) \<le> retries c + 1" using spec by simp
  show "\<And>j. 1 \<le> j \<Longrightarrow> j < Attempts (checkOne c nr dr t) \<Longrightarrow>
           \<exists>e. dr j = Failed e \<and> shouldRetry e"
    using spec by force
  show "\<And>e. nr t = Some e \<Longrightarrow> checkOne c nr dr t = noResponse t 1 (Some e)"
    using spec by simp
  show "\<And>e. nr t = None \<Longrightarrow> dr (Attempts (checkOne c nr dr t)) = Failed e \<Longrightarrow>
           checkOne c nr dr t = noResponse t (Attempts (checkOne c nr dr t)) (Some e) \<and>
           (\<not> shouldRetry e \<or> Attempts (checkOne c nr dr t) = retries c + 1)"
    using spec by simp
  show "\<And>code. nr t = None \<Longrightarrow> dr (Attempts (checkOne c nr dr t)) = Response code \<Longrightarrow>
           checkOne c nr dr t =
             \<lparr>URL = t, OK = (200 \<le> code \<and> code < 400), Status = code, Error = [],
              Attempts = Attempts (checkOne c nr dr t)\<rparr>"
    using spec by simp
qed

text \<open>The counter of attempts stays within the range of a 64-bit integer.\<close>

lemma checkOne_counter_fits:
  assumes "0 \<le> retries c" and "retries c < 2 ^ 63 - 1"
  shows "1 \<le> Attempts (checkOne c nr dr t) \<and> Attempts (checkOne c nr dr t) < 2 ^ 63"
  using checkOne_spec(2,3) [OF assms(1), of nr dr t] assms(2) by simp

text \<open>
  What \<^verbatim>\<open>shouldRetry\<close> tests, and what the test comes to on the errors it is given: an
  error of \<^verbatim>\<open>c.client.Do\<close> is retried unless its cause is a deadline that was exceeded,
  whether or not the cause is a network error.
\<close>

lemma shouldRetry_iff:
  "shouldRetry err \<longleftrightarrow> asNetError err \<and> \<not> isDeadlineExceeded err"
  by (simp add: shouldRetry_def)

lemma shouldRetry_urlError:
  "shouldRetry (urlError op url cause) \<longleftrightarrow> \<not> isDeadlineExceeded cause"
  by (simp add: shouldRetry_def urlError_def)

text \<open>
  Claim C1. An error returned by the HTTP send of an attempt is to be classified
  retryable if and only if it is a network error (it satisfies \<^verbatim>\<open>net.Error\<close>) and not a
  deadline that was exceeded, and any other error (a malformed request, an error that is
  no network error) not retryable. The code does not do the second half. The URL
  \<^verbatim>\<open>http://\<close> has no host: the request is built, and \<^verbatim>\<open>c.client.Do\<close> fails with the
  error \<^verbatim>\<open>http: no Host in request URL\<close>, which is no network error. It arrives wrapped
  in a \<^verbatim>\<open>*url.Error\<close>, \<^verbatim>\<open>shouldRetry\<close> finds a \<^verbatim>\<open>net.Error\<close> in it, and with a retry
  budget of 2 \<^verbatim>\<open>checkOne\<close> makes three attempts where one was due.
\<close>

theorem checkOne_retries_non_network_error:
  "\<not> asNetError \<lparr>isDeadlineExceeded = False, asNetError = False,
                   errorText = ''http: no Host in request URL''\<rparr> \<and>
   shouldRetry (urlError ''Get'' ''http://''
      \<lparr>isDeadlineExceeded = False, asNetError = False,
       errorText = ''http: no Host in request URL''\<rparr>) \<and>
   checkOne (NewChecker 1 second 2 None) (\<lambda>u. None)
      (\<lambda>k. Failed (urlError ''Get'' ''http://''
         \<lparr>isDeadlineExceeded = False, asNetError = False,
          errorText = ''http: no Host in request URL''\<rparr>))
      ''http://''
    = \<lparr>URL = ''http://'', OK = False, Status = 0,
       Error = ''Get '' @ goQuote ''http://'' @ '': http: no Host in request URL'',
       Attempts = 3\<rparr>"
  by (simp add: shouldRetry_def urlError_def checkOne_def checkOne_loop.simps NewChecker_def
      noResponse_def)

text \<open>
  The attempt that is answered by a response ends the check, and the replies past the
  budget are never asked for.
\<close>

lemma checkOne_loop_response_at:
  assumes "a < j" and "j \<le> retries c + 1" and "nr t = None"
    and "\<forall>k. a < k \<and> k < j \<longrightarrow> (\<exists>e. dr k = Failed e \<and> shouldRetry e)"
    and "dr j = Response S"
  shows "checkOne_loop c nr dr t a le =
           \<lparr>URL = t, OK = (200 \<le> S \<and> S < 400), Status = S, Error = [], Attempts = j\<rparr>"
proof -
  let ?r = "checkOne_loop c nr dr t a le"
  from assms(1,2) have ar: "a \<le> retries c" by simp
  note spec = checkOne_loop_spec [OF ar, of nr dr t le]
  have lo: "a + 1 \<le> Attempts ?r" and hi: "Attempts ?r \<le> retries c + 1"
    and before: "\<And>k. a < k \<Longrightarrow> k < Attempts ?r \<Longrightarrow> \<exists>e. dr k = Failed e \<and> shouldRetry e"
    using spec by blast+
  have last: "case dr (Attempts ?r) of
          Failed e \<Rightarrow> ?r = noResponse t (Attempts ?r) (Some e) \<and>
            (\<not> shouldRetry e \<or> Attempts ?r = retries c + 1)
        | Response code \<Rightarrow>
            ?r = \<lparr>URL = t, OK = (200 \<le> code \<and> code < 400), Status = code, Error = [],
               Attempts = Attempts ?r\<rparr>"
    using spec assms(3) by simp
  have "\<not> Attempts ?r < j"
  proof
    assume lt: "Attempts ?r < j"
    with lo assms(4) obtain e where e: "dr (Attempts ?r) = Failed e" "shouldRetry e"
      by (metis add.commute add_strict_increasing zero_less_one zless_add1_eq not_le)
    with last have "Attempts ?r = retries c + 1" by simp
    with lt assms(2) show False by simp
  qed
  moreover have "\<not> j < Attempts ?r"
  proof
    assume "j < Attempts ?r"
    from before [OF assms(1) this] assms(5) show False by simp
  qed
  ultimately have eq: "Attempts ?r = j" by simp
  with last assms(5) show ?thesis by simp
qed

lemma checkOne_loop_cong:
  assumes "\<forall>k. a < k \<and> k \<le> retries c + 1 \<longrightarrow> dr' k = dr k"
  shows "checkOne_loop c nr dr' t a le = checkOne_loop c nr dr t a le"
  using assms
proof (induction c nr dr t a le rule: checkOne_loop.induct)
  case (1 c nr dr t a le)
  show ?case
  proof (cases "a \<le> retries c")
    case False
    then show ?thesis
      by (simp add: checkOne_loop.simps [of c nr dr' t a le] checkOne_loop.simps [of c nr dr t a le])
  next
    case True
    with "1.prems" have same: "dr' (a + 1) = dr (a + 1)" by simp
    show ?thesis
    proof (cases "nr t")
      case (Some e)
      with True show ?thesis
        by (simp add: checkOne_loop.simps [of c nr dr' t a le] checkOne_loop.simps [of c nr dr t a le])
    next
      case None
      show ?thesis
      proof (cases "dr (a + 1)")
        case (Response code)
        with True None same show ?thesis
          by (simp add: checkOne_loop.simps [of c nr dr' t a le]
              checkOne_loop.simps [of c nr dr t a le])
      next
        case (Failed e)
        show ?thesis
        proof (cases "shouldRetry e \<and> a + 1 \<le> retries c")
          case False
          with True None same Failed show ?thesis
            by (auto simp add: checkOne_loop.simps [of c nr dr' t a le]
                checkOne_loop.simps [of c nr dr t a le])
        next
          case retry: True
          have "\<forall>k. a + 1 < k \<and> k \<le> retries c + 1 \<longrightarrow> dr' k = dr k"
            using "1.prems" by simp
          from "1.IH" [OF True None Failed retry this]
          have "checkOne_loop c nr dr' t (a + 1) (Some e) = checkOne_loop c nr dr t (a + 1) (Some e)" .
          with True None same Failed retry show ?thesis
            by (simp add: checkOne_loop.simps [of c nr dr' t a le]
                checkOne_loop.simps [of c nr dr t a le])
        qed
      qed
    qed
  qed
qed

text \<open>
  Claim C2. When every attempt for a URL fails with a retryable transport error,
  \<^verbatim>\<open>checkOne\<close> with a retry budget \<open>R \<ge> 0\<close> makes exactly \<open>R + 1\<close> attempts. It returns
  \<open>Attempts = R + 1\<close> and the error of attempt \<open>R + 1\<close>. Each of the attempts \<open>1\<close> to \<open>R + 1\<close>
  is made: had attempt \<open>j\<close> been answered by a response instead, the check would have
  ended there, with \<open>Attempts = j\<close>. No attempt is made past \<open>R + 1\<close>: the result does not
  depend on any later reply, and \<open>Attempts\<close> is never more than \<open>R + 1\<close> whatever the
  requests return.
\<close>

theorem checkOne_retry_ceiling:
  assumes "0 \<le> retries c"
    and "nr t = None"
    and "\<forall>k. 1 \<le> k \<and> k \<le> retries c + 1 \<longrightarrow> (\<exists>e. dr k = Failed e \<and> shouldRetry e)"
  shows "Attempts (checkOne c nr dr t) = retries c + 1 \<and>
         (\<exists>e. dr (retries c + 1) = Failed e \<and>
              checkOne c nr dr t = noResponse t (retries c + 1) (Some e)) \<and>
         (\<forall>j S. 1 \<le> j \<and> j \<le> retries c + 1 \<longrightarrow>
            checkOne c nr (dr(j := Response S)) t =
              \<lparr>URL = t, OK = (200 \<le> S \<and> S < 400), Status = S, Error = [], Attempts = j\<rparr>) \<and>
         (\<forall>dr'. (\<forall>k. 1 \<le> k \<and> k \<le> retries c + 1 \<longrightarrow> dr' k = dr k) \<longrightarrow>
            checkOne c nr dr' t = checkOne c nr dr t) \<and>
         (\<forall>nr' dr' t'. Attempts (checkOne c nr' dr' t') \<le> retries c + 1)"
proof (intro conjI allI impI)
  let ?n = "Attempts (checkOne c nr dr t)"
  have "1 \<le> ?n" "?n \<le> retries c + 1"
    using checkOne_spec(2,3) [OF assms(1)] by simp_all
  then obtain e where e: "dr ?n = Failed e" "shouldRetry e"
    using assms(3) by blast
  note last = checkOne_spec(6) [where c = c and nr = nr and dr = dr and t = t and e = e]
  show n: "?n = retries c + 1"
    using last assms(1,2) e by simp
  from last assms(1,2) e n
  show "\<exists>e. dr (retries c + 1) = Failed e \<and>
              checkOne c nr dr t = noResponse t (retries c + 1) (Some e)"
    by auto
  show "\<And>nr' dr' t'. Attempts (checkOne c nr' dr' t') \<le> retries c + 1"
    using checkOne_spec(3) [OF assms(1)] by simp
  {
    fix j S
    assume j: "1 \<le> j \<and> j \<le> retries c + 1"
    have "\<forall>k. 0 < k \<and> k < j \<longrightarrow> (\<exists>e. (dr(j := Response S)) k = Failed e \<and> shouldRetry e)"
      using assms(3) j by simp
    moreover have "(dr(j := Response S)) j = Response S" by simp
    ultimately show "checkOne c nr (dr(j := Response S)) t =
              \<lparr>URL = t, OK = (200 \<le> S \<and> S < 400), Status = S, Error = [], Attempts = j\<rparr>"
      unfolding checkOne_def using j assms(2)
      by (intro checkOne_loop_response_at) simp_all
  }
  {
    fix dr'
    assume "\<forall>k. 1 \<le> k \<and> k \<le> retries c + 1 \<longrightarrow> dr' k = dr k"
    then have "\<forall>k. 0 < k \<and> k \<le> retries c + 1 \<longrightarrow> dr' k = dr k" by simp
    then show "checkOne c nr dr' t = checkOne c nr dr t"
      unfolding checkOne_def by (rule checkOne_loop_cong)
  }
qed

theorem checkOne_retry_ceiling_witness:
  "0 \<le> retries (NewChecker 1 second 2 None) \<and>
   checkOne (NewChecker 1 second 2 None) (\<lambda>u. None)
      (\<lambda>k. Failed \<lparr>isDeadlineExceeded = False, asNetError = True, errorText = ''lookup: temp''\<rparr>)
      ''http://example.com''
     = \<lparr>URL = ''http://example.com'', OK = False, Status = 0, Error = ''lookup: temp'',
        Attempts = 3\<rparr> \<and>
   checkOne (NewChecker 1 second 2 None) (\<lambda>u. None)
      ((\<lambda>k. Failed \<lparr>isDeadlineExceeded = False, asNetError = True, errorText = ''lookup: temp''\<rparr>)
         (3 := Response 200))
      ''http://example.com''
     = \<lparr>URL = ''http://example.com'', OK = True, Status = 200, Error = [], Attempts = 3\<rparr> \<and>
   checkOne (NewChecker 1 second 2 None) (\<lambda>u. None)
      ((\<lambda>k. Failed \<lparr>isDeadlineExceeded = False, asNetError = True, errorText = ''lookup: temp''\<rparr>)
         (4 := Response 200))
      ''http://example.com''
     = \<lparr>URL = ''http://example.com'', OK = False, Status = 0, Error = ''lookup: temp'',
        Attempts = 3\<rparr>"
proof -
  let ?c = "NewChecker 1 second 2 None"
  let ?e = "\<lparr>isDeadlineExceeded = False, asNetError = True, errorText = ''lookup: temp''\<rparr>"
  let ?dr = "\<lambda>k::int. Failed ?e"
  have r: "0 \<le> retries ?c" by (simp add: NewChecker_def)
  have n: "(\<lambda>u::string. None :: go_error option) ''http://example.com'' = None" by simp
  have f: "\<forall>k. 1 \<le> k \<and> k \<le> retries ?c + 1 \<longrightarrow> (\<exists>e. ?dr k = Failed e \<and> shouldRetry e)"
    by (simp add: shouldRetry_def)
  have a: "checkOne ?c (\<lambda>u. None) ?dr ''http://example.com''
     = \<lparr>URL = ''http://example.com'', OK = False, Status = 0, Error = ''lookup: temp'',
        Attempts = 3\<rparr>"
    by (simp add: checkOne_def checkOne_loop.simps NewChecker_def shouldRetry_def noResponse_def)
  have b: "checkOne ?c (\<lambda>u. None) (?dr(3 := Response 200)) ''http://example.com''
     = \<lparr>URL = ''http://example.com'', OK = True, Status = 200, Error = [], Attempts = 3\<rparr>"
    by (simp add: checkOne_def checkOne_loop.simps NewChecker_def shouldRetry_def noResponse_def)
  have d: "checkOne ?c (\<lambda>u. None) (?dr(4 := Response 200)) ''http://example.com''
     = \<lparr>URL = ''http://example.com'', OK = False, Status = 0, Error = ''lookup: temp'',
        Attempts = 3\<rparr>"
    by (simp add: checkOne_def checkOne_loop.simps NewChecker_def shouldRetry_def noResponse_def)
  show ?thesis
    using checkOne_retry_ceiling [of ?c "\<lambda>u. None" "''http://example.com''" ?dr, OF r n f]
    by (intro conjI r a b d)
qed

text \<open>
  Claim C3. When the final attempt received a response with status code \<open>S\<close>, the result
  has \<open>OK\<close> true if and only if \<open>200 \<le> S < 400\<close>, its \<open>Status\<close> is \<open>S\<close>, and its \<open>Error\<close>
  is empty. The final attempt is the one numbered \<open>Attempts\<close>.
\<close>

theorem checkOne_response_result:
  assumes "0 \<le> retries c"
    and "nr t = None"
    and "dr (Attempts (checkOne c nr dr t)) = Response S"
  shows "(OK (checkOne c nr dr t) \<longleftrightarrow> 200 \<le> S \<and> S < 400) \<and>
         Status (checkOne c nr dr t) = S \<and>
         Error (checkOne c nr dr t) = []"
proof -
  have "checkOne c nr dr t =
          \<lparr>URL = t, OK = (200 \<le> S \<and> S < 400), Status = S, Error = [],
           Attempts = Attempts (checkOne c nr dr t)\<rparr>"
    using checkOne_spec(7) [where c = c and nr = nr and dr = dr and t = t and code = S]
      assms by simp
  then have "OK (checkOne c nr dr t) = (200 \<le> S \<and> S < 400)"
    and "Status (checkOne c nr dr t) = S"
    and "Error (checkOne c nr dr t) = []"
    by (metis Result.select_convs)+
  then show ?thesis by simp
qed

theorem checkOne_response_result_witness:
  "0 \<le> retries (NewChecker 1 second 2 None) \<and>
   (\<lambda>k. if k = 1
           then Failed \<lparr>isDeadlineExceeded = False, asNetError = True, errorText = ''lookup: temp''\<rparr>
           else Response 200)
     (Attempts (checkOne (NewChecker 1 second 2 None) (\<lambda>u. None) (\<lambda>k. if k = 1
           then Failed \<lparr>isDeadlineExceeded = False, asNetError = True, errorText = ''lookup: temp''\<rparr>
           else Response 200) ''http://example.com''))
     = Response 200 \<and>
   OK (checkOne (NewChecker 1 second 2 None) (\<lambda>u. None) (\<lambda>k. if k = 1
           then Failed \<lparr>isDeadlineExceeded = False, asNetError = True, errorText = ''lookup: temp''\<rparr>
           else Response 200) ''http://example.com'') \<and>
   Status (checkOne (NewChecker 1 second 2 None) (\<lambda>u. None) (\<lambda>k. if k = 1
           then Failed \<lparr>isDeadlineExceeded = False, asNetError = True, errorText = ''lookup: temp''\<rparr>
           else Response 200) ''http://example.com'') = 200 \<and>
   Error (checkOne (NewChecker 1 second 2 None) (\<lambda>u. None) (\<lambda>k. if k = 1
           then Failed \<lparr>isDeadlineExceeded = False, asNetError = True, errorText = ''lookup: temp''\<rparr>
           else Response 200) ''http://example.com'') = []"
proof -
  let ?dr = "\<lambda>k::int. if k = 1
           then Failed \<lparr>isDeadlineExceeded = False, asNetError = True, errorText = ''lookup: temp''\<rparr>
           else Response 200"
  let ?c = "NewChecker 1 second 2 None"
  have run: "Attempts (checkOne ?c (\<lambda>u. None) ?dr ''http://example.com'') = 2"
    by (simp add: checkOne_def checkOne_loop.simps NewChecker_def shouldRetry_def)
  have r: "0 \<le> retries ?c" by (simp add: NewChecker_def)
  have d: "?dr (Attempts (checkOne ?c (\<lambda>u. None) ?dr ''http://example.com'')) = Response 200"
    by (simp add: run)
  show ?thesis
    using checkOne_response_result [of ?c "\<lambda>u. None" "''http://example.com''" ?dr 200, OF r _ d] r d
    by simp
qed

text \<open>
  Claim C6. An attempt that receives an HTTP response, whatever its status code, is the
  last attempt: the loop returns at once and nothing is retried. In particular a URL that
  answers the first attempt with status 500 yields \<open>Attempts = 1\<close> for every retry budget.
\<close>

theorem checkOne_no_retry_on_response:
  assumes "0 \<le> retries c"
    and "nr t = None"
  shows "(\<forall>k S. 1 \<le> k \<and> k \<le> Attempts (checkOne c nr dr t) \<and> dr k = Response S \<longrightarrow>
            Attempts (checkOne c nr dr t) = k \<and> Status (checkOne c nr dr t) = S) \<and>
         (dr 1 = Response 500 \<longrightarrow>
            checkOne c nr dr t =
              \<lparr>URL = t, OK = False, Status = 500, Error = [], Attempts = 1\<rparr>)"
proof (intro conjI allI impI)
  let ?r = "checkOne c nr dr t"
  have last: "\<And>k S. 1 \<le> k \<Longrightarrow> k \<le> Attempts ?r \<Longrightarrow> dr k = Response S \<Longrightarrow> Attempts ?r = k"
  proof (rule ccontr)
    fix k S
    assume k: "1 \<le> k" "k \<le> Attempts ?r" "dr k = Response S" and ne: "Attempts ?r \<noteq> k"
    then have "k < Attempts ?r" by simp
    then obtain e where "dr k = Failed e"
      using checkOne_spec(4) [OF assms(1) k(1), of nr dr t] by blast
    with k(3) show False by simp
  qed
  have res: "\<And>S. dr (Attempts ?r) = Response S \<Longrightarrow>
      ?r = \<lparr>URL = t, OK = (200 \<le> S \<and> S < 400), Status = S, Error = [], Attempts = Attempts ?r\<rparr>"
    using checkOne_spec(7) [where c = c and nr = nr and dr = dr and t = t] assms by simp
  {
    fix k S
    assume h: "1 \<le> k \<and> k \<le> Attempts ?r \<and> dr k = Response S"
    then have a: "Attempts ?r = k" using last by blast
    with h have "dr (Attempts ?r) = Response S" by simp
    from res [OF this] have "Status ?r = S" by (metis Result.select_convs(3))
    with a show "Attempts ?r = k" and "Status ?r = S" by simp_all
  }
  assume first: "dr 1 = Response 500"
  have "1 \<le> Attempts ?r" by (rule checkOne_spec(2) [OF assms(1)])
  with first have a1: "Attempts ?r = 1" using last [of 1 500] by simp
  with first have "dr (Attempts ?r) = Response 500" by simp
  from res [OF this] a1
  show "?r = \<lparr>URL = t, OK = False, Status = 500, Error = [], Attempts = 1\<rparr>" by simp
qed

theorem checkOne_no_retry_on_response_witness:
  "0 \<le> retries (NewChecker 1 second 2 None) \<and>
   checkOne (NewChecker 1 second 2 None) (\<lambda>u. None) (\<lambda>k. Response 500) ''http://x/bad''
     = \<lparr>URL = ''http://x/bad'', OK = False, Status = 500, Error = [], Attempts = 1\<rparr>"
  using checkOne_no_retry_on_response
    [of "NewChecker 1 second 2 None" "\<lambda>u. None" "''http://x/bad''" "\<lambda>k. Response 500"]
  by (simp add: NewChecker_def)

text \<open>
  Claim C7. When building the request fails (a malformed URL, say), \<^verbatim>\<open>checkOne\<close> leaves
  the loop at once, for every retry budget, and returns \<open>Attempts = 1\<close>, \<open>OK\<close> false,
  \<open>Status = 0\<close> and the text of the construction error in \<open>Error\<close>.
\<close>

theorem checkOne_request_construction_failure:
  assumes "0 \<le> retries c"
    and "nr t = Some e"
  shows "checkOne c nr dr t =
           \<lparr>URL = t, OK = False, Status = 0, Error = errorText e, Attempts = 1\<rparr>"
  using checkOne_spec(5) [OF assms(1), of nr t e dr] assms(2)
  by (simp add: noResponse_def)

theorem checkOne_request_construction_failure_witness:
  "0 \<le> retries (NewChecker 4 second 3 None) \<and>
   checkOne (NewChecker 4 second 3 None)
     (\<lambda>u. if u = ''http://[::1'' then
        Some \<lparr>isDeadlineExceeded = False, asNetError = False, errorText = ''missing ] in host''\<rparr>
      else None)
     (\<lambda>k. Response 200) ''http://[::1''
     = \<lparr>URL = ''http://[::1'', OK = False, Status = 0, Error = ''missing ] in host'',
        Attempts = 1\<rparr>"
  using checkOne_request_construction_failure
    [of "NewChecker 4 second 3 None"
        "\<lambda>u. if u = ''http://[::1'' then
        Some \<lparr>isDeadlineExceeded = False, asNetError = False, errorText = ''missing ] in host''\<rparr>
      else None" "''http://[::1''"
        "\<lparr>isDeadlineExceeded = False, asNetError = False, errorText = ''missing ] in host''\<rparr>"
        "\<lambda>k. Response 200"]
  by (simp add: NewChecker_def)

text \<open>
  Claim C8. When no attempt received a response, \<^verbatim>\<open>checkOne\<close> returns the URL it was
  given, \<open>OK\<close> false, \<open>Status = 0\<close>, the text of the last error in \<open>Error\<close> (the error of
  the last send, or the construction error when the request could not be built), and
  \<open>Attempts \<ge> 1\<close>: with a retry budget \<open>\<ge> 0\<close> at least one attempt is made.
\<close>

theorem checkOne_exhausted:
  assumes "0 \<le> retries c"
    and "\<forall>k S. 1 \<le> k \<and> k \<le> Attempts (checkOne c nr dr t) \<longrightarrow> dr k \<noteq> Response S"
  shows "1 \<le> Attempts (checkOne c nr dr t) \<and>
         (\<exists>e. (case nr t of Some e' \<Rightarrow> e = e' | None \<Rightarrow> dr (Attempts (checkOne c nr dr t)) = Failed e) \<and>
              checkOne c nr dr t =
                \<lparr>URL = t, OK = False, Status = 0, Error = errorText e,
                 Attempts = Attempts (checkOne c nr dr t)\<rparr>)"
proof
  let ?r = "checkOne c nr dr t"
  show one: "1 \<le> Attempts ?r" by (rule checkOne_spec(2) [OF assms(1)])
  show "\<exists>e. (case nr t of Some e' \<Rightarrow> e = e' | None \<Rightarrow> dr (Attempts ?r) = Failed e) \<and>
              ?r = \<lparr>URL = t, OK = False, Status = 0, Error = errorText e, Attempts = Attempts ?r\<rparr>"
  proof (cases "nr t")
    case (Some e')
    then have "?r = noResponse t 1 (Some e')"
      using checkOne_spec(5) [OF assms(1), of nr t e' dr] by simp
    then have "?r = \<lparr>URL = t, OK = False, Status = 0, Error = errorText e', Attempts = Attempts ?r\<rparr>"
      by (simp add: noResponse_def)
    with Some show ?thesis by simp
  next
    case None
    from assms(2) one have "\<forall>S. dr (Attempts ?r) \<noteq> Response S" by simp
    then obtain e where e: "dr (Attempts ?r) = Failed e"
      by (cases "dr (Attempts ?r)") auto
    have "?r = noResponse t (Attempts ?r) (Some e)"
      using checkOne_spec(6) [where c = c and nr = nr and dr = dr and t = t and e = e]
        assms(1) None e by simp
    then have "?r = \<lparr>URL = t, OK = False, Status = 0, Error = errorText e, Attempts = Attempts ?r\<rparr>"
      by (simp add: noResponse_def)
    with None e show ?thesis by simp
  qed
qed

theorem checkOne_exhausted_witness:
  "0 \<le> retries (NewChecker 1 second 1 None) \<and>
   checkOne (NewChecker 1 second 1 None) (\<lambda>u. None)
     (\<lambda>k. if k = 1
        then Failed \<lparr>isDeadlineExceeded = False, asNetError = True, errorText = ''connection reset''\<rparr>
        else Failed \<lparr>isDeadlineExceeded = False, asNetError = True, errorText = ''connection refused''\<rparr>)
     ''http://down.example''
     = \<lparr>URL = ''http://down.example'', OK = False, Status = 0, Error = ''connection refused'',
        Attempts = 2\<rparr>"
proof -
  let ?dr = "\<lambda>k::int. if k = 1
        then Failed \<lparr>isDeadlineExceeded = False, asNetError = True, errorText = ''connection reset''\<rparr>
        else Failed \<lparr>isDeadlineExceeded = False, asNetError = True, errorText = ''connection refused''\<rparr>"
  let ?c = "NewChecker 1 second 1 None"
  have r: "0 \<le> retries ?c" by (simp add: NewChecker_def)
  have n: "\<forall>k S. 1 \<le> k \<and> k \<le> Attempts (checkOne ?c (\<lambda>u. None) ?dr ''http://down.example'')
             \<longrightarrow> ?dr k \<noteq> Response S"
    by simp
  have a: "Attempts (checkOne ?c (\<lambda>u. None) ?dr ''http://down.example'') = 2"
    by (simp add: checkOne_def checkOne_loop.simps NewChecker_def shouldRetry_def noResponse_def)
  show ?thesis
    using checkOne_exhausted [OF r n] r a by simp
qed

section \<open>Properties of the batch check\<close>

subsection \<open>The steps, case by case\<close>

lemma step_cases [consumes 1, case_names Cancel Deadline Dispatch DispatchQuit DispatchEnd
    Finish FinishPanic Leave CloseOut Store StorePanic Return]:
  assumes "step c nr urls ev s = Some s'"
  obtains
    "ev = Cancel" "outcome s = None" "ctx s = Cancellable None"
      "s' = s\<lparr>ctx := Cancellable (Some Canceled)\<rparr>"
  | "ev = Deadline" "outcome s = None" "ctx s = Cancellable None"
      "s' = s\<lparr>ctx := Cancellable (Some DeadlineExceeded)\<rparr>"
  | w where "ev = Dispatch w" "outcome s = None" "\<not> jobsClosed s" "nextIdx s < length urls"
      "w < length (workers s)" "workers s ! w = Receiving"
      "s' = s\<lparr>workers := (workers s)[w := Running (nextIdx s) (urls ! nextIdx s)],
              nextIdx := nextIdx s + 1\<rparr>"
  | "ev = DispatchQuit" "outcome s = None" "\<not> jobsClosed s" "nextIdx s < length urls"
      "ctx_Err (ctx s) \<noteq> None" "s' = s\<lparr>jobsClosed := True\<rparr>"
  | "ev = DispatchEnd" "outcome s = None" "\<not> jobsClosed s" "nextIdx s = length urls"
      "s' = s\<lparr>jobsClosed := True\<rparr>"
  | w doReq idx url where "ev = Finish w doReq" "outcome s = None" "w < length (workers s)"
      "workers s ! w = Running idx url" "\<not> outClosed s" "length (out s) < length urls"
      "s' = s\<lparr>out := out s @ [(idx, checkOne c nr doReq url)],
              workers := (workers s)[w := Receiving]\<rparr>"
  | w doReq idx url where "ev = Finish w doReq" "outcome s = None" "w < length (workers s)"
      "workers s ! w = Running idx url" "outClosed s" "s' = s\<lparr>outcome := Some Panicked\<rparr>"
  | w where "ev = Leave w" "outcome s = None" "w < length (workers s)"
      "workers s ! w = Receiving" "jobsClosed s" "s' = s\<lparr>workers := (workers s)[w := Exited]\<rparr>"
  | "ev = CloseOut" "outcome s = None" "\<not> outClosed s"
      "\<forall>w. w < length (workers s) \<longrightarrow> workers s ! w = Exited" "s' = s\<lparr>outClosed := True\<rparr>"
  | idx res rest where "ev = Store" "outcome s = None" "out s = (idx, res) # rest"
      "idx < length (results s)" "s' = s\<lparr>results := (results s)[idx := res], out := rest\<rparr>"
  | idx res rest where "ev = Store" "outcome s = None" "out s = (idx, res) # rest"
      "\<not> idx < length (results s)" "s' = s\<lparr>outcome := Some Panicked\<rparr>"
  | "ev = Return" "outcome s = None" "out s = []" "outClosed s"
      "s' = s\<lparr>outcome := Some (Returned (results s) (Check_err (ctx s)))\<rparr>"
proof -
  have none: "outcome s = None"
    using assms by (simp add: step_def split: if_splits)
  show ?thesis
  proof (cases ev)
    case Cancel
    with assms none that(1) show ?thesis
      by (auto simp: step_def split: go_context.splits option.splits)
  next
    case Deadline
    with assms none that(2) show ?thesis
      by (auto simp: step_def split: go_context.splits option.splits)
  next
    case (Dispatch w)
    with assms none that(3) show ?thesis
      by (auto simp: step_def split: if_splits)
  next
    case DispatchQuit
    with assms none that(4) show ?thesis
      by (auto simp: step_def split: if_splits)
  next
    case DispatchEnd
    with assms none that(5) show ?thesis
      by (auto simp: step_def split: if_splits)
  next
    case (Finish w doReq)
    with assms none that(6,7) show ?thesis
      by (auto simp: step_def split: if_splits worker.splits)
  next
    case (Leave w)
    with assms none that(8) show ?thesis
      by (auto simp: step_def split: if_splits)
  next
    case CloseOut
    with assms none that(9) show ?thesis
      by (auto simp: step_def list_all_length split: if_splits)
  next
    case Store
    with assms none that(10,11) show ?thesis
      by (auto simp: step_def split: if_splits list.splits)
  next
    case Return
    with assms none that(12) show ?thesis
      by (auto simp: step_def split: if_splits)
  qed
qed

subsection \<open>The invariants hold all through a run\<close>

lemma inv_shape_step:
  assumes "step c nr urls ev s = Some s'" and "inv_shape c urls s"
  shows "inv_shape c urls s'"
  using assms by (cases rule: step_cases) (auto simp: inv_shape_def)

lemma inv_close_step:
  assumes "step c nr urls ev s = Some s'" and "inv_close urls s"
  shows "inv_close urls s'"
  using assms
  by (cases rule: step_cases) (auto simp: inv_close_def nth_list_update split: if_splits)

lemma inv_outcome_step:
  assumes "step c nr urls ev s = Some s'" and "inv_outcome s" and "inv_shape c urls s"
    and "inv_out c nr urls s" and "inv_close urls s"
  shows "inv_outcome s'"
  using assms
proof (cases rule: step_cases)
  case (FinishPanic w doReq idx url)
  with assms(5) show ?thesis by (auto simp: inv_close_def)
next
  case (StorePanic idx res rest)
  with assms(3,4) show ?thesis by (auto simp: inv_out_def inv_shape_def)
qed (auto simp: inv_outcome_def)

lemma inv_workersD:
  assumes "inv_workers urls s" and "w < length (workers s)" and "workers s ! w = Running idx url"
  shows "idx < nextIdx s" and "url = urls ! idx" and "idx \<notin> fst ` set (out s)"
    and "\<And>w' url'. w' < length (workers s) \<Longrightarrow> workers s ! w' = Running idx url' \<Longrightarrow> w' = w"
  using assms unfolding inv_workers_def by blast+

lemma inv_workersI:
  assumes "\<And>w idx url. w < length (workers s) \<Longrightarrow> workers s ! w = Running idx url \<Longrightarrow>
      idx < nextIdx s \<and> url = urls ! idx \<and> idx \<notin> fst ` set (out s) \<and>
      (\<forall>w' url'. w' < length (workers s) \<and> workers s ! w' = Running idx url' \<longrightarrow> w' = w)"
  shows "inv_workers urls s"
  using assms unfolding inv_workers_def by blast

lemma inv_outD:
  assumes "inv_out c nr urls s"
  shows "distinct (map fst (out s))"
    and "\<And>idx res. (idx, res) \<in> set (out s) \<Longrightarrow> idx < nextIdx s"
    and "\<And>idx res. (idx, res) \<in> set (out s) \<Longrightarrow> \<exists>doReq. res = checkOne c nr doReq (urls ! idx)"
  using assms unfolding inv_out_def by blast+

lemma inv_workers_step:
  assumes "step c nr urls ev s = Some s'" and "inv_workers urls s" and "inv_out c nr urls s"
  shows "inv_workers urls s'"
  using assms(1)
proof (cases rule: step_cases)
  case (Dispatch w)
  show ?thesis
  proof (rule inv_workersI)
    fix w1 idx url
    assume a: "w1 < length (workers s')" "workers s' ! w1 = Running idx url"
    show "idx < nextIdx s' \<and> url = urls ! idx \<and> idx \<notin> fst ` set (out s') \<and>
      (\<forall>w' url'. w' < length (workers s') \<and> workers s' ! w' = Running idx url' \<longrightarrow> w' = w1)"
    proof (cases "w1 = w")
      case True
      with a Dispatch have idx: "idx = nextIdx s" "url = urls ! nextIdx s" by auto
      have "idx \<notin> fst ` set (out s)"
        using inv_outD(2) [OF assms(3)] idx by fastforce
      moreover have "\<forall>w' url'. w' < length (workers s') \<and> workers s' ! w' = Running idx url'
          \<longrightarrow> w' = w1"
      proof (intro allI impI)
        fix w' url'
        assume b: "w' < length (workers s') \<and> workers s' ! w' = Running idx url'"
        show "w' = w1"
        proof (rule ccontr)
          assume "w' \<noteq> w1"
          with b True Dispatch have "w' < length (workers s)" "workers s ! w' = Running idx url'"
            by simp_all
          from inv_workersD(1) [OF assms(2) this] idx show False by simp
        qed
      qed
      ultimately show ?thesis using idx Dispatch by simp
    next
      case False
      with a Dispatch have old: "w1 < length (workers s)" "workers s ! w1 = Running idx url"
        by simp_all
      note d = inv_workersD [OF assms(2) old]
      have "\<forall>w' url'. w' < length (workers s') \<and> workers s' ! w' = Running idx url'
          \<longrightarrow> w' = w1"
      proof (intro allI impI)
        fix w' url'
        assume b: "w' < length (workers s') \<and> workers s' ! w' = Running idx url'"
        show "w' = w1"
        proof (cases "w' = w")
          case True
          with b Dispatch have "idx = nextIdx s" by simp
          with d(1) show ?thesis by simp
        next
          case False
          with b Dispatch have "w' < length (workers s)" "workers s ! w' = Running idx url'"
            by simp_all
          then show ?thesis by (rule d(4))
        qed
      qed
      with d(1,2,3) Dispatch show ?thesis by simp
    qed
  qed
next
  case (Finish w doReq idx0 url0)
  note f = inv_workersD [OF assms(2) Finish(3,4)]
  show ?thesis
  proof (rule inv_workersI)
    fix w1 idx url
    assume a: "w1 < length (workers s')" "workers s' ! w1 = Running idx url"
    with Finish have ne: "w1 \<noteq> w" by auto
    with a Finish have old: "w1 < length (workers s)" "workers s ! w1 = Running idx url"
      by simp_all
    note d = inv_workersD [OF assms(2) old]
    have "idx \<noteq> idx0" using f(4) [of w1 url] old ne by blast
    moreover have "\<forall>w' url'. w' < length (workers s') \<and> workers s' ! w' = Running idx url'
          \<longrightarrow> w' = w1"
    proof (intro allI impI)
      fix w' url'
      assume b: "w' < length (workers s') \<and> workers s' ! w' = Running idx url'"
      with Finish have "w' \<noteq> w" by auto
      with b Finish have "w' < length (workers s)" "workers s ! w' = Running idx url'"
        by simp_all
      then show "w' = w1" by (rule d(4))
    qed
    ultimately show "idx < nextIdx s' \<and> url = urls ! idx \<and> idx \<notin> fst ` set (out s') \<and>
      (\<forall>w' url'. w' < length (workers s') \<and> workers s' ! w' = Running idx url' \<longrightarrow> w' = w1)"
      using d(1,2,3) Finish by simp
  qed
next
  case (Leave w)
  show ?thesis
  proof (rule inv_workersI)
    fix w1 idx url
    assume a: "w1 < length (workers s')" "workers s' ! w1 = Running idx url"
    with Leave have ne: "w1 \<noteq> w" by auto
    with a Leave have old: "w1 < length (workers s)" "workers s ! w1 = Running idx url"
      by simp_all
    note d = inv_workersD [OF assms(2) old]
    have "\<forall>w' url'. w' < length (workers s') \<and> workers s' ! w' = Running idx url'
          \<longrightarrow> w' = w1"
    proof (intro allI impI)
      fix w' url'
      assume b: "w' < length (workers s') \<and> workers s' ! w' = Running idx url'"
      with Leave have "w' \<noteq> w" by auto
      with b Leave have "w' < length (workers s)" "workers s ! w' = Running idx url'"
        by simp_all
      then show "w' = w1" by (rule d(4))
    qed
    then show "idx < nextIdx s' \<and> url = urls ! idx \<and> idx \<notin> fst ` set (out s') \<and>
      (\<forall>w' url'. w' < length (workers s') \<and> workers s' ! w' = Running idx url' \<longrightarrow> w' = w1)"
      using d(1,2,3) Leave by simp
  qed
next
  case (Store idx0 res rest)
  then have sub: "set (out s') \<subseteq> set (out s)" by auto
  show ?thesis
  proof (rule inv_workersI)
    fix w1 idx url
    assume a: "w1 < length (workers s')" "workers s' ! w1 = Running idx url"
    with Store have old: "w1 < length (workers s)" "workers s ! w1 = Running idx url"
      by simp_all
    note d = inv_workersD [OF assms(2) old]
    from d(3) sub have "idx \<notin> fst ` set (out s')" by blast
    with d(1,2,4) Store show "idx < nextIdx s' \<and> url = urls ! idx \<and> idx \<notin> fst ` set (out s') \<and>
      (\<forall>w' url'. w' < length (workers s') \<and> workers s' ! w' = Running idx url' \<longrightarrow> w' = w1)"
      by simp
  qed
qed (use assms(2) in \<open>auto simp: inv_workers_def\<close>)

lemma inv_out_step:
  assumes "step c nr urls ev s = Some s'" and "inv_workers urls s" and "inv_out c nr urls s"
  shows "inv_out c nr urls s'"
  using assms(1)
proof (cases rule: step_cases)
  case (Dispatch w)
  with assms(3) show ?thesis unfolding inv_out_def by (auto intro: less_SucI)
next
  case (Finish w doReq idx url)
  note f = inv_workersD [OF assms(2) Finish(3,4)]
  from f(3) have "idx \<notin> set (map fst (out s))" by simp
  with assms(3) Finish f(1,2) show ?thesis unfolding inv_out_def by auto
next
  case (Store idx res rest)
  with assms(3) show ?thesis unfolding inv_out_def by auto
qed (use assms(3) in \<open>auto simp: inv_out_def\<close>)

lemma pendingIdx_step:
  assumes "step c nr urls ev s = Some s'" and "inv_workers urls s" and "inv_out c nr urls s"
  shows "pendingIdx s' =
    (case ev of
       Dispatch w \<Rightarrow> insert (nextIdx s) (pendingIdx s)
     | Store \<Rightarrow> (case out s of [] \<Rightarrow> pendingIdx s
                 | (idx, res) # rest \<Rightarrow>
                     if idx < length (results s) then pendingIdx s - {idx} else pendingIdx s)
     | _ \<Rightarrow> pendingIdx s)"
  using assms(1)
proof (cases rule: step_cases)
  case (Dispatch w)
  have "{idx. \<exists>w1 url. w1 < length (workers s') \<and> workers s' ! w1 = Running idx url}
      = insert (nextIdx s) {idx. \<exists>w1 url. w1 < length (workers s) \<and> workers s ! w1 = Running idx url}"
    (is "?L = ?R")
  proof (rule set_eqI)
    fix i
    show "i \<in> ?L \<longleftrightarrow> i \<in> ?R"
    proof
      assume "i \<in> ?L"
      then obtain w1 url where a: "w1 < length (workers s')" "workers s' ! w1 = Running i url"
        by blast
      show "i \<in> ?R"
      proof (cases "w1 = w")
        case True
        with a Dispatch show ?thesis by auto
      next
        case False
        with a Dispatch have "w1 < length (workers s)" "workers s ! w1 = Running i url"
          by simp_all
        then show ?thesis by blast
      qed
    next
      assume "i \<in> ?R"
      then consider "i = nextIdx s"
        | w1 url where "w1 < length (workers s)" "workers s ! w1 = Running i url"
        by blast
      then show "i \<in> ?L"
      proof cases
        case 1
        with Dispatch have "w < length (workers s')"
          "workers s' ! w = Running i (urls ! nextIdx s)" by simp_all
        then show ?thesis by blast
      next
        case 2
        with Dispatch have "w1 \<noteq> w" by auto
        with 2 Dispatch have "w1 < length (workers s')" "workers s' ! w1 = Running i url"
          by simp_all
        then show ?thesis by blast
      qed
    qed
  qed
  moreover have "out s' = out s" using Dispatch by simp
  ultimately show ?thesis using Dispatch by (simp add: pendingIdx_def)
next
  case (Finish w doReq idx url)
  note f = inv_workersD [OF assms(2) Finish(3,4)]
  have "{i. \<exists>w1 u. w1 < length (workers s) \<and> workers s ! w1 = Running i u}
      = insert idx {i. \<exists>w1 u. w1 < length (workers s') \<and> workers s' ! w1 = Running i u}"
    (is "?L = ?R")
  proof (rule set_eqI)
    fix i
    show "i \<in> ?L \<longleftrightarrow> i \<in> ?R"
    proof
      assume "i \<in> ?L"
      then obtain w1 u where a: "w1 < length (workers s)" "workers s ! w1 = Running i u"
        by blast
      show "i \<in> ?R"
      proof (cases "w1 = w")
        case True
        with a Finish show ?thesis by auto
      next
        case False
        with a Finish have "w1 < length (workers s')" "workers s' ! w1 = Running i u"
          by simp_all
        then show ?thesis by blast
      qed
    next
      assume "i \<in> ?R"
      then consider "i = idx"
        | w1 u where "w1 < length (workers s')" "workers s' ! w1 = Running i u"
        by blast
      then show "i \<in> ?L"
      proof cases
        case 1
        with Finish show ?thesis by blast
      next
        case 2
        with Finish have "w1 \<noteq> w" by auto
        with 2 Finish have "w1 < length (workers s)" "workers s ! w1 = Running i u"
          by simp_all
        then show ?thesis by blast
      qed
    qed
  qed
  moreover have "fst ` set (out s') = insert idx (fst ` set (out s))" using Finish by simp
  ultimately show ?thesis using Finish by (auto simp add: pendingIdx_def)
next
  case (Leave w)
  have "\<And>w1 i u. w1 < length (workers s) \<Longrightarrow>
      (workers s' ! w1 = Running i u) = (workers s ! w1 = Running i u)"
    using Leave by (auto simp: nth_list_update)
  moreover have "length (workers s') = length (workers s)" "out s' = out s"
    using Leave by simp_all
  ultimately have "pendingIdx s' = pendingIdx s"
    unfolding pendingIdx_def by auto
  then show ?thesis using Leave by simp
next
  case (Store idx res rest)
  have d: "distinct (map fst (out s))" by (rule inv_outD(1) [OF assms(3)])
  with Store have notin: "idx \<notin> fst ` set rest" by simp
  have nohold: "\<And>w1 u. w1 < length (workers s) \<Longrightarrow> workers s ! w1 \<noteq> Running idx u"
  proof
    fix w1 u assume "w1 < length (workers s)" "workers s ! w1 = Running idx u"
    from inv_workersD(3) [OF assms(2) this] Store show False by simp
  qed
  have "pendingIdx s' = pendingIdx s - {idx}"
    using Store notin nohold unfolding pendingIdx_def by auto
  then show ?thesis using Store by simp
qed (auto simp: pendingIdx_def)

lemma inv_results_step:
  assumes "step c nr urls ev s = Some s'" and "inv_shape c urls s" and "inv_workers urls s"
    and "inv_out c nr urls s" and "inv_results c nr urls s"
  shows "inv_results c nr urls s'"
proof -
  note p = pendingIdx_step [OF assms(1,3,4)]
  from assms(1) show ?thesis
  proof (cases rule: step_cases)
    case (Dispatch w)
    with p have "pendingIdx s' = insert (nextIdx s) (pendingIdx s)" by simp
    with assms(5) Dispatch show ?thesis
      unfolding inv_results_def by (auto simp: less_Suc_eq)
  next
    case (Store idx res rest)
    with p have pe: "pendingIdx s' = pendingIdx s - {idx}" by simp
    have idx: "idx < nextIdx s" "\<exists>doReq. res = checkOne c nr doReq (urls ! idx)"
      using inv_outD(2,3) [OF assms(4), of idx res] Store by simp_all
    show ?thesis
      unfolding inv_results_def
    proof (intro allI impI conjI)
      fix i assume i: "i < length urls"
      { assume "nextIdx s' \<le> i"
        with Store idx have "i \<noteq> idx" "nextIdx s \<le> i" by simp_all
        with assms(5) i Store show "results s' ! i = zeroResult"
          unfolding inv_results_def by simp }
      { assume a: "i < nextIdx s' \<and> i \<notin> pendingIdx s'"
        show "\<exists>doReq. results s' ! i = checkOne c nr doReq (urls ! i)"
        proof (cases "i = idx")
          case True
          with Store idx show ?thesis by simp
        next
          case False
          with a pe Store have "i < nextIdx s \<and> i \<notin> pendingIdx s" by simp
          with assms(5) i False Store show ?thesis
            unfolding inv_results_def by simp
        qed }
    qed
  qed (use p assms(5) in \<open>auto simp: inv_results_def\<close>)
qed

lemma invariant_step:
  assumes "step c nr urls ev s = Some s'" and "invariant c nr urls s"
  shows "invariant c nr urls s'"
proof -
  note st = assms(1)
  from assms(2) have i: "inv_shape c urls s" "inv_workers urls s" "inv_out c nr urls s"
    "inv_results c nr urls s" "inv_close urls s" "inv_outcome s"
    unfolding invariant_def by simp_all
  show ?thesis
    unfolding invariant_def
    using inv_shape_step [OF st i(1)] inv_workers_step [OF st i(2,3)]
      inv_out_step [OF st i(2,3)] inv_results_step [OF st i(1,2,3,4)]
      inv_close_step [OF st i(5)] inv_outcome_step [OF st i(6,1,3,5)]
    by simp
qed

lemma invariant_init: "invariant c nr urls (Check_init c ctx0 urls)"
  by (simp add: invariant_def inv_shape_def inv_workers_def inv_out_def inv_results_def
      inv_close_def inv_outcome_def Check_init_def pendingIdx_def)

lemma invariant_exec:
  assumes "exec c nr urls evs s = Some s'" and "invariant c nr urls s"
  shows "invariant c nr urls s'"
  using assms
proof (induction evs arbitrary: s)
  case Nil
  then show ?case by simp
next
  case (Cons ev evs)
  then obtain s1 where s1: "step c nr urls ev s = Some s1" "exec c nr urls evs s1 = Some s'"
    by (auto split: option.splits)
  from invariant_step [OF s1(1) Cons.prems(2)] Cons.IH [OF s1(2)] show ?case by blast
qed

lemma invariant_reachable:
  assumes "exec c nr urls evs (Check_init c ctx0 urls) = Some s"
  shows "invariant c nr urls s"
  using invariant_exec [OF assms invariant_init] .

lemma checkOne_URL: "URL (checkOne c nr dr t) = t"
proof (cases "0 \<le> retries c")
  case True
  then show ?thesis by (rule checkOne_spec(1))
next
  case False
  then show ?thesis
    by (simp add: checkOne_def checkOne_loop.simps [of c nr dr t 0 None] noResponse_def)
qed

lemma returned_facts:
  assumes "invariant c nr urls s" and "outcome s = Some (Returned res err)"
  shows "res = results s" and "err = Check_err (ctx s)" and "length res = length urls"
    and "\<And>i. i < nextIdx s \<Longrightarrow> \<exists>doReq. res ! i = checkOne c nr doReq (urls ! i)"
    and "\<And>i. nextIdx s \<le> i \<Longrightarrow> i < length urls \<Longrightarrow> res ! i = zeroResult"
    and "nextIdx s \<le> length urls"
    and "1 \<le> concurrency c \<Longrightarrow> nextIdx s = length urls \<or> ctx_Err (ctx s) \<noteq> None"
proof -
  from assms(1) have i: "inv_shape c urls s" "inv_workers urls s" "inv_out c nr urls s"
    "inv_results c nr urls s" "inv_close urls s" "inv_outcome s"
    unfolding invariant_def by simp_all
  from i(6) assms(2) have o: "res = results s" "err = Check_err (ctx s)" "out s = []" "outClosed s"
    by (simp_all add: inv_outcome_def)
  show "res = results s" "err = Check_err (ctx s)" by (rule o)+
  show "length res = length urls" using o(1) i(1) by (simp add: inv_shape_def)
  show n: "nextIdx s \<le> length urls" using i(1) by (simp add: inv_shape_def)
  from i(5) o(4) have ex: "\<And>w. w < length (workers s) \<Longrightarrow> workers s ! w = Exited"
    by (simp add: inv_close_def)
  then have pe: "pendingIdx s = {}"
    using o(3) by (auto simp: pendingIdx_def)
  show "\<And>i. i < nextIdx s \<Longrightarrow> \<exists>doReq. res ! i = checkOne c nr doReq (urls ! i)"
    using i(4) pe n o(1) unfolding inv_results_def by simp
  show "\<And>i. nextIdx s \<le> i \<Longrightarrow> i < length urls \<Longrightarrow> res ! i = zeroResult"
    using i(4) o(1) unfolding inv_results_def by simp
  assume "1 \<le> concurrency c"
  with i(1) have "0 < length (workers s)" by (simp add: inv_shape_def)
  with ex [of 0] i(5) have "jobsClosed s" unfolding inv_close_def by blast
  with i(5) show "nextIdx s = length urls \<or> ctx_Err (ctx s) \<noteq> None"
    unfolding inv_close_def by blast
qed

subsection \<open>Each slot is assigned once\<close>

lemma writes_skip:
  assumes "step c nr urls ev s = Some s1" and "ev \<noteq> Store"
  shows "writes c nr urls (ev # evs) s = writes c nr urls evs s1"
  using assms by (cases ev) simp_all

lemma nextIdx_step:
  assumes "step c nr urls ev s = Some s1" and "\<forall>w. ev \<noteq> Dispatch w"
  shows "nextIdx s1 = nextIdx s"
  using assms by (cases rule: step_cases) simp_all

lemma writes_future:
  assumes "invariant c nr urls s"
  shows "distinct (writes c nr urls evs s) \<and>
         set (writes c nr urls evs s) \<subseteq> pendingIdx s \<union> {i. nextIdx s \<le> i}"
  using assms
proof (induction evs arbitrary: s)
  case Nil
  then show ?case by simp
next
  case (Cons ev evs)
  show ?case
  proof (cases "step c nr urls ev s")
    case None
    then show ?thesis by simp
  next
    case (Some s1)
    from Cons.prems have i: "inv_workers urls s" "inv_out c nr urls s"
      unfolding invariant_def by simp_all
    note p = pendingIdx_step [OF Some i]
    have ih: "distinct (writes c nr urls evs s1)"
      "set (writes c nr urls evs s1) \<subseteq> pendingIdx s1 \<union> {i. nextIdx s1 \<le> i}"
      using Cons.IH [OF invariant_step [OF Some Cons.prems]] by simp_all
    from Some show ?thesis
    proof (cases rule: step_cases)
      case (Dispatch w)
      with p have "pendingIdx s1 = insert (nextIdx s) (pendingIdx s)" by simp
      moreover have "nextIdx s1 = nextIdx s + 1" using Dispatch by simp
      ultimately have "pendingIdx s1 \<union> {i. nextIdx s1 \<le> i} \<subseteq> pendingIdx s \<union> {i. nextIdx s \<le> i}"
        by auto
      with ih(2) have "set (writes c nr urls evs s1) \<subseteq> pendingIdx s \<union> {i. nextIdx s \<le> i}"
        by (rule subset_trans)
      with ih(1) writes_skip [OF Some, of evs] Dispatch show ?thesis by simp
    next
      case (Store idx res rest)
      with p have pe: "pendingIdx s1 = pendingIdx s - {idx}" by simp
      have n: "nextIdx s1 = nextIdx s" using Store by simp
      have lt: "idx < nextIdx s" using inv_outD(2) [OF i(2), of idx res] Store by simp
      have mem: "idx \<in> pendingIdx s" using Store by (simp add: pendingIdx_def)
      have w: "writes c nr urls (ev # evs) s = idx # writes c nr urls evs s1"
        using Some Store by simp
      have "idx \<notin> pendingIdx s1 \<union> {i. nextIdx s1 \<le> i}" using pe n lt by simp
      with ih(2) have "idx \<notin> set (writes c nr urls evs s1)" by (meson subsetD)
      moreover have "pendingIdx s1 \<union> {i. nextIdx s1 \<le> i} \<subseteq> pendingIdx s \<union> {i. nextIdx s \<le> i}"
        unfolding pe n by auto
      with ih(2) have "set (writes c nr urls evs s1) \<subseteq> pendingIdx s \<union> {i. nextIdx s \<le> i}"
        by (rule subset_trans)
      ultimately show ?thesis using w ih(1) mem by simp
    next
      case (StorePanic idx res rest)
      with p have "pendingIdx s1 = pendingIdx s" by simp
      moreover have "nextIdx s1 = nextIdx s" using StorePanic by simp
      moreover have "writes c nr urls (ev # evs) s = writes c nr urls evs s1"
        using Some StorePanic by simp
      ultimately show ?thesis using ih by simp
    next
      case Cancel
      with p ih writes_skip [OF Some] nextIdx_step [OF Some] show ?thesis by simp
    next
      case Deadline
      with p ih writes_skip [OF Some] nextIdx_step [OF Some] show ?thesis by simp
    next
      case DispatchQuit
      with p ih writes_skip [OF Some] nextIdx_step [OF Some] show ?thesis by simp
    next
      case DispatchEnd
      with p ih writes_skip [OF Some] nextIdx_step [OF Some] show ?thesis by simp
    next
      case (Finish w doReq idx url)
      with p ih writes_skip [OF Some] nextIdx_step [OF Some] show ?thesis by simp
    next
      case (FinishPanic w doReq idx url)
      with p ih writes_skip [OF Some] nextIdx_step [OF Some] show ?thesis by simp
    next
      case (Leave w)
      with p ih writes_skip [OF Some] nextIdx_step [OF Some] show ?thesis by simp
    next
      case CloseOut
      with p ih writes_skip [OF Some] nextIdx_step [OF Some] show ?thesis by simp
    next
      case Return
      with p ih writes_skip [OF Some] nextIdx_step [OF Some] show ?thesis by simp
    qed
  qed
qed

subsection \<open>The call goes on to its return\<close>

lemma filter_update_length:
  "w < length xs \<Longrightarrow>
     length (filter P (xs[w := y])) + (if P (xs ! w) then 1 else 0)
       = length (filter P xs) + (if P y then 1 else 0)"
proof (induction xs arbitrary: w)
  case Nil
  then show ?case by simp
next
  case (Cons x xs)
  then show ?case by (cases w) auto
qed

lemma stepsLeft_step:
  assumes "step c nr urls ev s = Some s'" and "programEvent ev"
  shows "stepsLeft urls s' < stepsLeft urls s"
  using assms(1)
proof (cases rule: step_cases)
  case Cancel
  with assms(2) show ?thesis by simp
next
  case Deadline
  with assms(2) show ?thesis by simp
next
  case (Dispatch w)
  from filter_update_length [OF Dispatch(5), of isRunning "Running (nextIdx s) (urls ! nextIdx s)"]
    filter_update_length [OF Dispatch(5), of "\<lambda>w. w \<noteq> Exited" "Running (nextIdx s) (urls ! nextIdx s)"]
    Dispatch
  show ?thesis by (simp add: stepsLeft_def)
next
  case (Finish w doReq idx url)
  from filter_update_length [OF Finish(3), of isRunning Receiving]
    filter_update_length [OF Finish(3), of "\<lambda>w. w \<noteq> Exited" Receiving]
    Finish
  show ?thesis by (simp add: stepsLeft_def)
next
  case (Leave w)
  from filter_update_length [OF Leave(3), of isRunning Exited]
    filter_update_length [OF Leave(3), of "\<lambda>w. w \<noteq> Exited" Exited]
    Leave
  show ?thesis by (simp add: stepsLeft_def)
qed (auto simp: stepsLeft_def)

lemma progress:
  assumes "invariant c nr urls s" and "outcome s = None" and "1 \<le> concurrency c"
  shows "\<exists>ev s'. programEvent ev \<and> step c nr urls ev s = Some s'"
proof -
  from assms(1) have i: "inv_shape c urls s" "inv_workers urls s" "inv_out c nr urls s"
    "inv_close urls s"
    unfolding invariant_def by simp_all
  have wl: "0 < length (workers s)" using i(1) assms(3) by (simp add: inv_shape_def)
  show ?thesis
  proof (cases "out s")
    case (Cons a rest)
    obtain idx res where "a = (idx, res)" by (cases a)
    with Cons assms(2) have "step c nr urls Store s \<noteq> None"
      by (simp add: step_def)
    then show ?thesis by (metis programEvent.simps(9) not_None_eq)
  next
    case Nil
    show ?thesis
    proof (cases "\<exists>w idx url. w < length (workers s) \<and> workers s ! w = Running idx url")
      case True
      then obtain w idx url where w: "w < length (workers s)" "workers s ! w = Running idx url"
        by blast
      from inv_workersD(1) [OF i(2) w] i(1) have "0 < length urls"
        by (auto simp: inv_shape_def)
      with Nil w assms(2) have "step c nr urls (Finish w (\<lambda>k. Response 200)) s \<noteq> None"
        by (simp add: step_def)
      then show ?thesis by (metis programEvent.simps(6) not_None_eq)
    next
      case False
      note norun = this
      show ?thesis
      proof (cases "jobsClosed s")
        case False
        show ?thesis
        proof (cases "nextIdx s = length urls")
          case True
          with False assms(2) have "step c nr urls DispatchEnd s \<noteq> None"
            by (simp add: step_def)
          then show ?thesis by (metis programEvent.simps(5) not_None_eq)
        next
          case ne: False
          with i(1) have lt: "nextIdx s < length urls" by (simp add: inv_shape_def)
          have "workers s ! 0 \<noteq> Exited" using i(4) wl False unfolding inv_close_def by blast
          moreover have "\<And>idx url. workers s ! 0 \<noteq> Running idx url" using norun wl by blast
          ultimately have "workers s ! 0 = Receiving" by (cases "workers s ! 0") auto
          with False lt wl assms(2) have "step c nr urls (Dispatch 0) s \<noteq> None"
            by (simp add: step_def)
          then show ?thesis by (metis programEvent.simps(3) not_None_eq)
        qed
      next
        case True
        show ?thesis
        proof (cases "\<exists>w. w < length (workers s) \<and> workers s ! w = Receiving")
          case True
          then obtain w where "w < length (workers s)" "workers s ! w = Receiving" by blast
          with \<open>jobsClosed s\<close> assms(2) have "step c nr urls (Leave w) s \<noteq> None"
            by (simp add: step_def)
          then show ?thesis by (metis programEvent.simps(7) not_None_eq)
        next
          case False
          have allex: "\<And>w. w < length (workers s) \<Longrightarrow> workers s ! w = Exited"
          proof -
            fix w assume "w < length (workers s)"
            with False norun show "workers s ! w = Exited" by (cases "workers s ! w") auto
          qed
          show ?thesis
          proof (cases "outClosed s")
            case False
            with allex assms(2) have "step c nr urls CloseOut s \<noteq> None"
              by (simp add: step_def list_all_length)
            then show ?thesis by (metis programEvent.simps(8) not_None_eq)
          next
            case True
            with Nil assms(2) have "step c nr urls Return s \<noteq> None"
              by (simp add: step_def)
            then show ?thesis by (metis programEvent.simps(10) not_None_eq)
          qed
        qed
      qed
    qed
  qed
qed

lemma completion:
  assumes "invariant c nr urls s" and "outcome s = None" and "1 \<le> concurrency c"
  shows "\<exists>evs s' res err. list_all programEvent evs \<and> exec c nr urls evs s = Some s' \<and>
           outcome s' = Some (Returned res err)"
  using assms(1,2)
proof (induction "stepsLeft urls s" arbitrary: s rule: less_induct)
  case less
  from progress [OF less.prems assms(3)]
  obtain ev s1 where ev: "programEvent ev" "step c nr urls ev s = Some s1" by blast
  note inv1 = invariant_step [OF ev(2) less.prems(1)]
  show ?case
  proof (cases "outcome s1")
    case None
    from less.hyps [OF stepsLeft_step [OF ev(2,1)] inv1 None]
    obtain evs s' res err where r: "list_all programEvent evs" "exec c nr urls evs s1 = Some s'"
      "outcome s' = Some (Returned res err)" by blast
    from r ev have "list_all programEvent (ev # evs)" "exec c nr urls (ev # evs) s = Some s'"
      by simp_all
    with r(3) show ?thesis by blast
  next
    case (Some oc)
    from inv1 have "inv_outcome s1" unfolding invariant_def by simp
    with Some obtain res err where "oc = Returned res err"
      by (cases oc) (simp_all add: inv_outcome_def)
    with Some ev have "list_all programEvent [ev]" "exec c nr urls [ev] s = Some s1"
      "outcome s1 = Some (Returned res err)" by simp_all
    then show ?thesis by blast
  qed
qed

lemma ctx_step:
  assumes "step c nr urls ev s = Some s'"
  shows "ctx s' = ctx s \<or> (ctx s = Cancellable None \<and> \<not> programEvent ev)"
  using assms by (cases rule: step_cases) simp_all

lemma ctx_Background_exec:
  assumes "exec c nr urls evs s = Some s'" and "ctx s = Background"
  shows "ctx s' = Background"
  using assms
proof (induction evs arbitrary: s)
  case Nil
  then show ?case by simp
next
  case (Cons ev evs)
  then obtain s1 where s1: "step c nr urls ev s = Some s1" "exec c nr urls evs s1 = Some s'"
    by (auto split: option.splits)
  from ctx_step [OF s1(1)] Cons.prems(2) have "ctx s1 = Background" by auto
  from Cons.IH [OF s1(2) this] show ?case .
qed

lemma stepsLeft_env:
  assumes "step c nr urls ev s = Some s'" and "\<not> programEvent ev"
  shows "stepsLeft urls s' = stepsLeft urls s"
  using assms by (cases rule: step_cases) (simp_all add: stepsLeft_def)

lemma exec_program_steps:
  assumes "exec c nr urls evs s = Some s'"
  shows "length (filter programEvent evs) + stepsLeft urls s' \<le> stepsLeft urls s"
  using assms
proof (induction evs arbitrary: s)
  case Nil
  then show ?case by simp
next
  case (Cons ev evs)
  then obtain s1 where s1: "step c nr urls ev s = Some s1" "exec c nr urls evs s1 = Some s'"
    by (auto split: option.splits)
  show ?case
  proof (cases "programEvent ev")
    case True
    with Cons.IH [OF s1(2)] stepsLeft_step [OF s1(1)] show ?thesis by simp
  next
    case False
    with Cons.IH [OF s1(2)] stepsLeft_env [OF s1(1)] show ?thesis by simp
  qed
qed

lemma stepsLeft_init:
  "stepsLeft urls (Check_init c ctx0 urls) = 3 * length urls + nat (concurrency c) + 3"
  by (simp add: stepsLeft_def Check_init_def)

subsection \<open>The claims about the batch check\<close>

text \<open>
  Claim C4. For every list of URLs and every concurrency limit \<open>\<ge> 1\<close>, a call of
  \<^verbatim>\<open>Check\<close> that returns while its context is not done returns a slice as long as the
  list, with \<open>results[i].URL = urls[i]\<close> at every index \<open>i\<close>. No slot of \<^verbatim>\<open>results\<close> is
  assigned twice, whatever the schedule: each index is handed to one worker, once. And the
  call does return: a run takes at most \<open>3 * len(urls) + concurrency + 3\<close> steps of the
  program, and as long as it has not returned it can go on to its return.
\<close>

theorem Check_order_preserved:
  assumes "1 \<le> concurrency c"
    and "exec c nr urls sched (Check_init c ctx0 urls) = Some s"
  shows "(\<forall>res err. outcome s = Some (Returned res err) \<and> ctx_Err (ctx s) = None \<longrightarrow>
            length res = length urls \<and> (\<forall>i<length urls. URL (res ! i) = urls ! i)) \<and>
         distinct (writes c nr urls sched (Check_init c ctx0 urls)) \<and>
         length (filter programEvent sched) \<le> 3 * length urls + nat (concurrency c) + 3 \<and>
         (outcome s = None \<longrightarrow>
            (\<exists>evs s' res err. list_all programEvent evs \<and> exec c nr urls evs s = Some s' \<and>
               outcome s' = Some (Returned res err)))"
proof (intro conjI allI impI)
  note inv = invariant_reachable [OF assms(2)]
  show "distinct (writes c nr urls sched (Check_init c ctx0 urls))"
    using writes_future [OF invariant_init] by simp
  show "length (filter programEvent sched) \<le> 3 * length urls + nat (concurrency c) + 3"
    using exec_program_steps [OF assms(2)] by (simp add: stepsLeft_init)
  {
    assume "outcome s = None"
    from completion [OF inv this assms(1)]
    show "\<exists>evs s' res err. list_all programEvent evs \<and> exec c nr urls evs s = Some s' \<and>
               outcome s' = Some (Returned res err)" .
  }
  fix res err
  assume r: "outcome s = Some (Returned res err) \<and> ctx_Err (ctx s) = None"
  then have oc: "outcome s = Some (Returned res err)" by simp
  note f = returned_facts [OF inv oc]
  show "length res = length urls" by (rule f(3))
  from f(7) [OF assms(1)] r have n: "nextIdx s = length urls" by simp
  fix i assume "i < length urls"
  with n f(4) [of i] obtain doReq where "res ! i = checkOne c nr doReq (urls ! i)" by auto
  then show "URL (res ! i) = urls ! i" by (simp add: checkOne_URL)
qed

theorem Check_order_preserved_witness:
  "1 \<le> concurrency (NewChecker 2 (2 * second) 1 None) \<and>
   Check (NewChecker 2 (2 * second) 1 None) (\<lambda>u. None)
     [Dispatch 0, Dispatch 1, Finish 1 (\<lambda>k. Response 500), Finish 0 (\<lambda>k. Response 200),
      Dispatch 1, Store, Store, DispatchEnd, Leave 0, Finish 1 (\<lambda>k. Response 404), Leave 1,
      CloseOut, Store, Return]
     (Some Background) [''http://x/ok'', ''http://x/bad'', ''http://x/missing'']
   = Some (Returned
       [\<lparr>URL = ''http://x/ok'', OK = True, Status = 200, Error = [], Attempts = 1\<rparr>,
        \<lparr>URL = ''http://x/bad'', OK = False, Status = 500, Error = [], Attempts = 1\<rparr>,
        \<lparr>URL = ''http://x/missing'', OK = False, Status = 404, Error = [], Attempts = 1\<rparr>]
       None) \<and>
   writes (NewChecker 2 (2 * second) 1 None) (\<lambda>u. None)
     [''http://x/ok'', ''http://x/bad'', ''http://x/missing'']
     [Dispatch 0, Dispatch 1, Finish 1 (\<lambda>k. Response 500), Finish 0 (\<lambda>k. Response 200),
      Dispatch 1, Store, Store, DispatchEnd, Leave 0, Finish 1 (\<lambda>k. Response 404), Leave 1,
      CloseOut, Store, Return]
     (Check_init (NewChecker 2 (2 * second) 1 None) (Some Background)
        [''http://x/ok'', ''http://x/bad'', ''http://x/missing''])
   = [1, 0, 2]"
proof -
  let ?c = "NewChecker 2 (2 * second) 1 None"
  let ?urls = "[''http://x/ok'', ''http://x/bad'', ''http://x/missing'']"
  let ?sched = "[Dispatch 0, Dispatch 1, Finish 1 (\<lambda>k. Response 500), Finish 0 (\<lambda>k. Response 200),
      Dispatch 1, Store, Store, DispatchEnd, Leave 0, Finish 1 (\<lambda>k. Response 404), Leave 1,
      CloseOut, Store, Return]"
  let ?s = "the (exec ?c (\<lambda>u. None) ?urls ?sched (Check_init ?c (Some Background) ?urls))"
  have c: "1 \<le> concurrency ?c" by (simp add: NewChecker_def)
  have e: "exec ?c (\<lambda>u. None) ?urls ?sched (Check_init ?c (Some Background) ?urls) = Some ?s"
    by (simp add: Check_init_def step_def NewChecker_def eval_nat_numeral)
  have o: "outcome ?s = Some (Returned
       [\<lparr>URL = ''http://x/ok'', OK = True, Status = 200, Error = [], Attempts = 1\<rparr>,
        \<lparr>URL = ''http://x/bad'', OK = False, Status = 500, Error = [], Attempts = 1\<rparr>,
        \<lparr>URL = ''http://x/missing'', OK = False, Status = 404, Error = [], Attempts = 1\<rparr>]
       None)"
    by (simp add: Check_init_def step_def NewChecker_def checkOne_def checkOne_loop.simps
        Check_err_def zeroResult_def eval_nat_numeral)
  have w: "writes ?c (\<lambda>u. None) ?urls ?sched (Check_init ?c (Some Background) ?urls) = [1, 0, 2]"
    by (simp add: Check_init_def step_def NewChecker_def eval_nat_numeral)
  have "Check ?c (\<lambda>u. None) ?sched (Some Background) ?urls = outcome ?s"
    unfolding Check_def by (subst e) simp
  then have r: "Check ?c (\<lambda>u. None) ?sched (Some Background) ?urls = Some (Returned
       [\<lparr>URL = ''http://x/ok'', OK = True, Status = 200, Error = [], Attempts = 1\<rparr>,
        \<lparr>URL = ''http://x/bad'', OK = False, Status = 500, Error = [], Attempts = 1\<rparr>,
        \<lparr>URL = ''http://x/missing'', OK = False, Status = 404, Error = [], Attempts = 1\<rparr>]
       None)"
    using o by (rule trans)
  show ?thesis
    using Check_order_preserved [OF c e] by (intro conjI c r w)
qed

text \<open>
  Claim C5. When \<^verbatim>\<open>Check\<close> returns, after \<^verbatim>\<open>out\<close> is drained, the error it returns is
  not nil exactly when the error of the context is \<^verbatim>\<open>context.DeadlineExceeded\<close>, and it
  is then that error; a context that was cancelled gives a nil error. Either way the
  results come with it: the slots that were dispatched hold the result of \<^verbatim>\<open>checkOne\<close>
  for their URL, the slots that were not dispatched hold the zero value. In the state
  \<open>s\<close> of the return, \<open>ctx s\<close> is the context as the last lines of \<^verbatim>\<open>Check\<close> read it.
\<close>

theorem Check_returned_error:
  assumes "exec c nr urls sched (Check_init c ctx0 urls) = Some s"
    and "outcome s = Some (Returned res err)"
  shows "(err \<noteq> None \<longleftrightarrow> ctx_Err (ctx s) = Some DeadlineExceeded) \<and>
         (err \<noteq> None \<longrightarrow> err = ctx_Err (ctx s)) \<and>
         (ctx_Err (ctx s) = Some Canceled \<longrightarrow> err = None) \<and>
         length res = length urls \<and>
         (\<forall>i. i < nextIdx s \<longrightarrow> (\<exists>doReq. res ! i = checkOne c nr doReq (urls ! i))) \<and>
         (\<forall>i. nextIdx s \<le> i \<and> i < length urls \<longrightarrow> res ! i = zeroResult)"
proof -
  note inv = invariant_reachable [OF assms(1)]
  note f = returned_facts [OF inv assms(2)]
  have e: "err = Check_err (ctx s)" by (rule f(2))
  have 1: "err \<noteq> None \<longleftrightarrow> ctx_Err (ctx s) = Some DeadlineExceeded"
  proof (cases "ctx_Err (ctx s)")
    case None
    with e show ?thesis by (simp add: Check_err_def)
  next
    case (Some ce)
    with e show ?thesis by (cases ce) (simp_all add: Check_err_def)
  qed
  have 2: "err \<noteq> None \<longrightarrow> err = ctx_Err (ctx s)"
    using e by (simp add: Check_err_def split: option.splits if_splits)
  have 3: "ctx_Err (ctx s) = Some Canceled \<longrightarrow> err = None"
    using e by (simp add: Check_err_def)
  have 4: "\<forall>i. i < nextIdx s \<longrightarrow> (\<exists>doReq. res ! i = checkOne c nr doReq (urls ! i))"
    using f(4) by blast
  have 5: "\<forall>i. nextIdx s \<le> i \<and> i < length urls \<longrightarrow> res ! i = zeroResult"
    using f(5) by blast
  from 1 2 3 f(3) 4 5 show ?thesis by (intro conjI)
qed

theorem Check_returned_error_witness:
  "Check (NewChecker 2 (2 * second) 0 None) (\<lambda>u. None)
     [Dispatch 0, Cancel,
      Finish 0 (\<lambda>k. Failed \<lparr>isDeadlineExceeded = False, asNetError = True,
                             errorText = ''context canceled''\<rparr>),
      DispatchQuit, Store, Leave 0, Leave 1, CloseOut, Return]
     (Some (Cancellable None)) [''http://a'', ''http://b'']
   = Some (Returned
       [\<lparr>URL = ''http://a'', OK = False, Status = 0, Error = ''context canceled'', Attempts = 1\<rparr>,
        zeroResult]
       None) \<and>
   Check (NewChecker 2 (2 * second) 0 None) (\<lambda>u. None)
     [Dispatch 0, Deadline,
      Finish 0 (\<lambda>k. Failed \<lparr>isDeadlineExceeded = True, asNetError = True,
                             errorText = ''context deadline exceeded''\<rparr>),
      DispatchQuit, Store, Leave 0, Leave 1, CloseOut, Return]
     (Some (Cancellable None)) [''http://a'', ''http://b'']
   = Some (Returned
       [\<lparr>URL = ''http://a'', OK = False, Status = 0, Error = ''context deadline exceeded'',
          Attempts = 1\<rparr>,
        zeroResult]
       (Some DeadlineExceeded))"
proof -
  let ?c = "NewChecker 2 (2 * second) 0 None"
  let ?urls = "[''http://a'', ''http://b'']"
  let ?sched1 = "[Dispatch 0, Cancel,
      Finish 0 (\<lambda>k. Failed \<lparr>isDeadlineExceeded = False, asNetError = True,
                             errorText = ''context canceled''\<rparr>),
      DispatchQuit, Store, Leave 0, Leave 1, CloseOut, Return]"
  let ?sched2 = "[Dispatch 0, Deadline,
      Finish 0 (\<lambda>k. Failed \<lparr>isDeadlineExceeded = True, asNetError = True,
                             errorText = ''context deadline exceeded''\<rparr>),
      DispatchQuit, Store, Leave 0, Leave 1, CloseOut, Return]"
  let ?res1 = "[\<lparr>URL = ''http://a'', OK = False, Status = 0, Error = ''context canceled'',
                 Attempts = 1\<rparr>, zeroResult]"
  let ?res2 = "[\<lparr>URL = ''http://a'', OK = False, Status = 0,
                 Error = ''context deadline exceeded'', Attempts = 1\<rparr>, zeroResult]"
  let ?s1 = "the (exec ?c (\<lambda>u. None) ?urls ?sched1 (Check_init ?c (Some (Cancellable None)) ?urls))"
  let ?s2 = "the (exec ?c (\<lambda>u. None) ?urls ?sched2 (Check_init ?c (Some (Cancellable None)) ?urls))"
  have e1: "exec ?c (\<lambda>u. None) ?urls ?sched1 (Check_init ?c (Some (Cancellable None)) ?urls) = Some ?s1"
    by (simp add: Check_init_def step_def NewChecker_def eval_nat_numeral)
  have e2: "exec ?c (\<lambda>u. None) ?urls ?sched2 (Check_init ?c (Some (Cancellable None)) ?urls) = Some ?s2"
    by (simp add: Check_init_def step_def NewChecker_def eval_nat_numeral)
  have o1: "outcome ?s1 = Some (Returned ?res1 None)"
    by (simp add: Check_init_def step_def NewChecker_def checkOne_def checkOne_loop.simps
        Check_err_def shouldRetry_def noResponse_def eval_nat_numeral)
  have o2: "outcome ?s2 = Some (Returned ?res2 (Some DeadlineExceeded))"
    by (simp add: Check_init_def step_def NewChecker_def checkOne_def checkOne_loop.simps
        Check_err_def shouldRetry_def noResponse_def eval_nat_numeral)
  have "Check ?c (\<lambda>u. None) ?sched1 (Some (Cancellable None)) ?urls = outcome ?s1"
    unfolding Check_def by (subst e1) simp
  then have r1: "Check ?c (\<lambda>u. None) ?sched1 (Some (Cancellable None)) ?urls
      = Some (Returned ?res1 None)"
    using o1 by (rule trans)
  have "Check ?c (\<lambda>u. None) ?sched2 (Some (Cancellable None)) ?urls = outcome ?s2"
    unfolding Check_def by (subst e2) simp
  then have r2: "Check ?c (\<lambda>u. None) ?sched2 (Some (Cancellable None)) ?urls
      = Some (Returned ?res2 (Some DeadlineExceeded))"
    using o2 by (rule trans)
  show ?thesis
    using Check_returned_error [OF e1 o1] Check_returned_error [OF e2 o2]
    by (intro conjI r1 r2)
qed

text \<open>
  Claim C10. A call of \<^verbatim>\<open>Check\<close> with a nil context starts as a call with the
  background context does. Its context is never done, it does not panic, it can always go
  on to its return, and when it returns the error is nil and every slot holds the result
  of \<^verbatim>\<open>checkOne\<close> for its URL. The concurrency limit is \<open>\<ge> 1\<close>, as \<^verbatim>\<open>NewChecker\<close> makes it.
\<close>

theorem Check_nil_context:
  assumes "1 \<le> concurrency c"
    and "exec c nr urls sched (Check_init c None urls) = Some s"
  shows "Check_init c None urls = Check_init c (Some Background) urls \<and>
         ctx_Err (ctx s) = None \<and>
         outcome s \<noteq> Some Panicked \<and>
         (\<forall>res err. outcome s = Some (Returned res err) \<longrightarrow>
            err = None \<and> length res = length urls \<and>
            (\<forall>i<length urls. \<exists>doReq. res ! i = checkOne c nr doReq (urls ! i))) \<and>
         (outcome s = None \<longrightarrow>
            (\<exists>evs s' res. list_all programEvent evs \<and> exec c nr urls evs s = Some s' \<and>
               outcome s' = Some (Returned res None)))"
proof (intro conjI allI impI)
  note inv = invariant_reachable [OF assms(2)]
  show "Check_init c None urls = Check_init c (Some Background) urls"
    by (simp add: Check_init_def)
  have bg: "ctx s = Background"
    using ctx_Background_exec [OF assms(2)] by (simp add: Check_init_def)
  then show ne: "ctx_Err (ctx s) = None" by simp
  from inv have "inv_outcome s" unfolding invariant_def by simp
  then show "outcome s \<noteq> Some Panicked" by (auto simp: inv_outcome_def)
  {
    assume "outcome s = None"
    from completion [OF inv this assms(1)]
    obtain evs s' res err where r: "list_all programEvent evs" "exec c nr urls evs s = Some s'"
      "outcome s' = Some (Returned res err)" by blast
    from ctx_Background_exec [OF r(2) bg] have "Check_err (ctx s') = None"
      by (simp add: Check_err_def)
    with returned_facts(2) [OF invariant_exec [OF r(2) inv] r(3)] have "err = None" by simp
    with r show "\<exists>evs s' res. list_all programEvent evs \<and> exec c nr urls evs s = Some s' \<and>
               outcome s' = Some (Returned res None)" by blast
  }
  fix res err
  assume oc: "outcome s = Some (Returned res err)"
  note f = returned_facts [OF inv oc]
  from f(2) ne show "err = None" by (simp add: Check_err_def)
  show "length res = length urls" by (rule f(3))
  from f(7) [OF assms(1)] ne have n: "nextIdx s = length urls" by simp
  fix i assume "i < length urls"
  with n f(4) [of i] show "\<exists>doReq. res ! i = checkOne c nr doReq (urls ! i)" by simp
qed

theorem Check_nil_context_witness:
  "1 \<le> concurrency (NewChecker 1 second 2 None) \<and>
   Check (NewChecker 1 second 2 None) (\<lambda>u. None)
     [Dispatch 0,
      Finish 0 (\<lambda>k. if k = 1
         then Failed \<lparr>isDeadlineExceeded = False, asNetError = True, errorText = ''lookup: temp''\<rparr>
         else Response 200),
      DispatchEnd, Store, Leave 0, CloseOut, Return]
     None [''http://example.com'']
   = Some (Returned
       [\<lparr>URL = ''http://example.com'', OK = True, Status = 200, Error = [], Attempts = 2\<rparr>]
       None)"
proof -
  let ?c = "NewChecker 1 second 2 None"
  let ?urls = "[''http://example.com'']"
  let ?sched = "[Dispatch 0,
      Finish 0 (\<lambda>k. if k = 1
         then Failed \<lparr>isDeadlineExceeded = False, asNetError = True, errorText = ''lookup: temp''\<rparr>
         else Response 200),
      DispatchEnd, Store, Leave 0, CloseOut, Return]"
  let ?res = "[\<lparr>URL = ''http://example.com'', OK = True, Status = 200, Error = [], Attempts = 2\<rparr>]"
  let ?s = "the (exec ?c (\<lambda>u. None) ?urls ?sched (Check_init ?c None ?urls))"
  have c: "1 \<le> concurrency ?c" by (simp add: NewChecker_def)
  have e: "exec ?c (\<lambda>u. None) ?urls ?sched (Check_init ?c None ?urls) = Some ?s"
    by (simp add: Check_init_def step_def NewChecker_def eval_nat_numeral)
  have o: "outcome ?s = Some (Returned ?res None)"
    by (simp add: Check_init_def step_def NewChecker_def checkOne_def checkOne_loop.simps
        Check_err_def shouldRetry_def eval_nat_numeral)
  have "Check ?c (\<lambda>u. None) ?sched None ?urls = outcome ?s"
    unfolding Check_def by (subst e) simp
  then have r: "Check ?c (\<lambda>u. None) ?sched None ?urls = Some (Returned ?res None)"
    using o by (rule trans)
  show ?thesis
    using Check_nil_context [OF c e] by (intro conjI c r)
qed

subsection \<open>The requests in flight\<close>

lemma reqStep_cases [consumes 1, case_names PoolDispatch PoolOther BuildFails Sends Exhausted
    Reply EmitPanic Emit]:
  assumes "reqStep c nr urls ev s = Some s'"
  obtains
    w p where "ev = Pool (Dispatch w)" "step c nr urls (Dispatch w) (pool s) = Some p"
      "s' = s\<lparr>pool := p, calls := (calls s)[w := AtLoop 0 None]\<rparr>"
  | pev p where "ev = Pool pev" "\<forall>w. pev \<noteq> Dispatch w" "\<forall>w d. pev \<noteq> Finish w d"
      "step c nr urls pev (pool s) = Some p" "s' = s\<lparr>pool := p\<rparr>"
  | w idx url a le err where "ev = Attempt w" "outcome (pool s) = None"
      "w < length (workers (pool s))" "w < length (calls s)"
      "workers (pool s) ! w = Running idx url" "calls s ! w = AtLoop a le"
      "a \<le> retries c" "nr url = Some err"
      "s' = s\<lparr>calls := (calls s)[w := Returning (noResponse url (a + 1) (Some err))]\<rparr>"
  | w idx url a le where "ev = Attempt w" "outcome (pool s) = None"
      "w < length (workers (pool s))" "w < length (calls s)"
      "workers (pool s) ! w = Running idx url" "calls s ! w = AtLoop a le"
      "a \<le> retries c" "nr url = None"
      "s' = s\<lparr>calls := (calls s)[w := AwaitingReply (a + 1)], wire := wire s @ [(w, url)]\<rparr>"
  | w idx url a le where "ev = Attempt w" "outcome (pool s) = None"
      "w < length (workers (pool s))" "w < length (calls s)"
      "workers (pool s) ! w = Running idx url" "calls s ! w = AtLoop a le"
      "\<not> a \<le> retries c"
      "s' = s\<lparr>calls := (calls s)[w := Returning (noResponse url a le)]\<rparr>"
  | w r idx url a where "ev = Reply w r" "outcome (pool s) = None"
      "w < length (workers (pool s))" "w < length (calls s)"
      "workers (pool s) ! w = Running idx url" "calls s ! w = AwaitingReply a"
      "s' = s\<lparr>calls := (calls s)
               [w := (case r of
                        Failed err \<Rightarrow>
                          if shouldRetry err \<and> a \<le> retries c
                          then AtLoop a (Some err)
                          else Returning (noResponse url a (Some err))
                      | Response code \<Rightarrow>
                          Returning \<lparr>URL = url, OK = (200 \<le> code \<and> code < 400),
                                     Status = code, Error = [], Attempts = a\<rparr>)],
             wire := remove1 (w, url) (wire s)\<rparr>"
  | w idx url res where "ev = Emit w" "outcome (pool s) = None"
      "w < length (workers (pool s))" "w < length (calls s)"
      "workers (pool s) ! w = Running idx url" "calls s ! w = Returning res"
      "outClosed (pool s)" "s' = s\<lparr>pool := (pool s)\<lparr>outcome := Some Panicked\<rparr>\<rparr>"
  | w idx url res where "ev = Emit w" "outcome (pool s) = None"
      "w < length (workers (pool s))" "w < length (calls s)"
      "workers (pool s) ! w = Running idx url" "calls s ! w = Returning res"
      "\<not> outClosed (pool s)" "length (out (pool s)) < length urls"
      "s' = s\<lparr>pool := (pool s)\<lparr>out := out (pool s) @ [(idx, res)],
                              workers := (workers (pool s))[w := Receiving]\<rparr>,
             calls := (calls s)[w := NotCalled]\<rparr>"
proof -
  have none: "outcome (pool s) = None"
    using assms by (simp add: reqStep_def split: if_splits)
  show ?thesis
  proof (cases ev)
    case (Pool pev)
    show ?thesis
    proof (cases "\<exists>w. pev = Dispatch w")
      case True
      then obtain w where "pev = Dispatch w" by blast
      with assms none Pool that(1) show ?thesis
        by (auto simp: reqStep_def split: option.splits)
    next
      case False
      with assms none Pool that(2) show ?thesis
        by (cases pev) (auto simp: reqStep_def split: option.splits)
    qed
  next
    case (Attempt w)
    with assms none that(3,4,5) show ?thesis
      by (auto simp: reqStep_def split: if_splits prod.splits worker.splits call_state.splits
          option.splits)
  next
    case (Reply w r)
    with assms none that(6) show ?thesis
      by (auto simp: reqStep_def split: if_splits prod.splits worker.splits call_state.splits)
  next
    case (Emit w)
    with assms none that(7,8) show ?thesis
      by (auto simp: reqStep_def split: if_splits prod.splits worker.splits call_state.splits)
  qed
qed

lemma step_workers_length:
  assumes "step c nr urls pev s = Some p"
  shows "length (workers p) = length (workers s)"
  using assms by (cases rule: step_cases) simp_all

lemma step_Running_kept:
  assumes "step c nr urls pev s = Some p" and "\<forall>w d. pev \<noteq> Finish w d"
    and "w < length (workers s)" and "workers s ! w = Running idx url"
  shows "workers p ! w = Running idx url"
  using assms by (cases rule: step_cases) (auto simp: nth_list_update)

lemma step_Running_old:
  assumes "step c nr urls pev s = Some p" and "\<forall>w. pev \<noteq> Dispatch w"
    and "w < length (workers p)" and "workers p ! w = Running idx url"
  shows "workers s ! w = Running idx url"
  using assms by (cases rule: step_cases) (auto simp: nth_list_update split: if_splits)

lemma step_Dispatch:
  assumes "step c nr urls (Dispatch w) s = Some p"
  shows "w < length (workers s)" and "workers s ! w = Receiving"
    and "workers p = (workers s)[w := Running (nextIdx s) (urls ! nextIdx s)]"
  using assms by (cases rule: step_cases; simp)+

lemma distinct_map_remove1:
  "distinct (map f xs) \<Longrightarrow> distinct (map f (remove1 x xs))"
proof (induction xs)
  case Nil
  then show ?case by simp
next
  case (Cons a xs)
  have "f ` set (remove1 x xs) \<subseteq> f ` set xs"
    using set_remove1_subset [of x xs] by blast
  with Cons show ?case by auto
qed

lemma inv_wireD:
  assumes "inv_wire s" and "(w, url) \<in> set (wire s)"
  shows "w < length (calls s)" and "\<exists>a. calls s ! w = AwaitingReply a"
    and "\<exists>idx. workers (pool s) ! w = Running idx url"
  using assms unfolding inv_wire_def by blast+

lemma inv_wire_step:
  assumes "reqStep c nr urls ev s = Some s'" and "inv_wire s"
  shows "inv_wire s'"
proof -
  from assms(2) have len: "length (calls s) = length (workers (pool s))"
    and dist: "distinct (map fst (wire s))"
    unfolding inv_wire_def by simp_all
  note D = inv_wireD [OF assms(2)]
  from assms(1) show ?thesis
  proof (cases rule: reqStep_cases)
    case (PoolDispatch w p)
    note d = step_Dispatch [OF PoolDispatch(2)]
    have now: "\<And>v url. (v, url) \<in> set (wire s) \<Longrightarrow> v \<noteq> w"
    proof
      fix v url assume "(v, url) \<in> set (wire s)" "v = w"
      with D(3) [of v url] d(2) show False by auto
    qed
    show ?thesis
      unfolding inv_wire_def
    proof (intro conjI allI impI)
      show "length (calls s') = length (workers (pool s'))"
        using PoolDispatch d(3) len by simp
      show "distinct (map fst (wire s'))" using PoolDispatch dist by simp
    next
      fix v url assume "(v, url) \<in> set (wire s')"
      then have m: "(v, url) \<in> set (wire s)" using PoolDispatch by simp
      from now [OF m] D [OF m] PoolDispatch d(3)
      show "v < length (calls s')" "\<exists>a. calls s' ! v = AwaitingReply a"
        "\<exists>idx. workers (pool s') ! v = Running idx url"
        by auto
    qed
  next
    case (PoolOther pev p)
    show ?thesis
      unfolding inv_wire_def
    proof (intro conjI allI impI)
      show "length (calls s') = length (workers (pool s'))"
        using PoolOther step_workers_length [OF PoolOther(4)] len by simp
      show "distinct (map fst (wire s'))" using PoolOther dist by simp
    next
      fix v url assume "(v, url) \<in> set (wire s')"
      then have m: "(v, url) \<in> set (wire s)" using PoolOther by simp
      from D(1,2) [OF m] PoolOther
      show "v < length (calls s')" "\<exists>a. calls s' ! v = AwaitingReply a" by simp_all
      from D(3) [OF m] obtain idx where "workers (pool s) ! v = Running idx url" by blast
      from step_Running_kept [OF PoolOther(4,3) _ this] D(1) [OF m] len PoolOther
      show "\<exists>idx. workers (pool s') ! v = Running idx url" by auto
    qed
  next
    case (BuildFails w idx url a le err)
    have now: "\<And>v u. (v, u) \<in> set (wire s) \<Longrightarrow> v \<noteq> w"
    proof
      fix v u assume "(v, u) \<in> set (wire s)" "v = w"
      with D(2) [of v u] BuildFails(6) show False by auto
    qed
    show ?thesis
      unfolding inv_wire_def
    proof (intro conjI allI impI)
      show "length (calls s') = length (workers (pool s'))" using BuildFails len by simp
      show "distinct (map fst (wire s'))" using BuildFails dist by simp
    next
      fix v u assume "(v, u) \<in> set (wire s')"
      then have m: "(v, u) \<in> set (wire s)" using BuildFails by simp
      from now [OF m] D [OF m] BuildFails
      show "v < length (calls s')" "\<exists>a. calls s' ! v = AwaitingReply a"
        "\<exists>idx. workers (pool s') ! v = Running idx u"
        by auto
    qed
  next
    case (Exhausted w idx url a le)
    have now: "\<And>v u. (v, u) \<in> set (wire s) \<Longrightarrow> v \<noteq> w"
    proof
      fix v u assume "(v, u) \<in> set (wire s)" "v = w"
      with D(2) [of v u] Exhausted(6) show False by auto
    qed
    show ?thesis
      unfolding inv_wire_def
    proof (intro conjI allI impI)
      show "length (calls s') = length (workers (pool s'))" using Exhausted len by simp
      show "distinct (map fst (wire s'))" using Exhausted dist by simp
    next
      fix v u assume "(v, u) \<in> set (wire s')"
      then have m: "(v, u) \<in> set (wire s)" using Exhausted by simp
      from now [OF m] D [OF m] Exhausted
      show "v < length (calls s')" "\<exists>a. calls s' ! v = AwaitingReply a"
        "\<exists>idx. workers (pool s') ! v = Running idx u"
        by auto
    qed
  next
    case (Sends w idx url a le)
    have now: "\<And>v u. (v, u) \<in> set (wire s) \<Longrightarrow> v \<noteq> w"
    proof
      fix v u assume "(v, u) \<in> set (wire s)" "v = w"
      with D(2) [of v u] Sends(6) show False by auto
    qed
    then have "w \<notin> fst ` set (wire s)" by force
    show ?thesis
      unfolding inv_wire_def
    proof (intro conjI allI impI)
      show "length (calls s') = length (workers (pool s'))" using Sends len by simp
      show "distinct (map fst (wire s'))"
        using Sends dist \<open>w \<notin> fst ` set (wire s)\<close> by simp
    next
      fix v u assume "(v, u) \<in> set (wire s')"
      then consider "(v, u) \<in> set (wire s)" | "v = w" "u = url" using Sends by auto
      then have "v < length (calls s') \<and> (\<exists>a. calls s' ! v = AwaitingReply a) \<and>
        (\<exists>idx. workers (pool s') ! v = Running idx u)"
      proof cases
        case 1
        from now [OF 1] D [OF 1] Sends show ?thesis by auto
      next
        case 2
        with Sends show ?thesis by auto
      qed
      then show "v < length (calls s')" "\<exists>a. calls s' ! v = AwaitingReply a"
        "\<exists>idx. workers (pool s') ! v = Running idx u"
        by simp_all
    qed
  next
    case (Reply w r idx url a)
    have gone: "\<And>v u. (v, u) \<in> set (remove1 (w, url) (wire s)) \<Longrightarrow> v \<noteq> w"
    proof
      fix v u assume m: "(v, u) \<in> set (remove1 (w, url) (wire s))" and "v = w"
      then have in_s: "(w, u) \<in> set (wire s)"
        using set_remove1_subset [of "(w, url)" "wire s"] by blast
      with D(3) [of w u] Reply(5) have "u = url" by auto
      from dist have "distinct (wire s)" by (rule distinct_map [THEN iffD1, THEN conjunct1])
      with m \<open>v = w\<close> \<open>u = url\<close> show False by simp
    qed
    show ?thesis
      unfolding inv_wire_def
    proof (intro conjI allI impI)
      show "length (calls s') = length (workers (pool s'))" using Reply len by simp
      show "distinct (map fst (wire s'))"
        using Reply dist by (simp add: distinct_map_remove1)
    next
      fix v u assume "(v, u) \<in> set (wire s')"
      then have m': "(v, u) \<in> set (remove1 (w, url) (wire s))" using Reply by simp
      then have m: "(v, u) \<in> set (wire s)"
        using set_remove1_subset [of "(w, url)" "wire s"] by blast
      from gone [OF m'] D [OF m] Reply
      show "v < length (calls s')" "\<exists>a. calls s' ! v = AwaitingReply a"
        "\<exists>idx. workers (pool s') ! v = Running idx u"
        by auto
    qed
  next
    case (EmitPanic w idx url res)
    then have "calls s' = calls s" "wire s' = wire s" "workers (pool s') = workers (pool s)"
      by simp_all
    with assms(2) show ?thesis unfolding inv_wire_def by auto
  next
    case (Emit w idx url res)
    have now: "\<And>v u. (v, u) \<in> set (wire s) \<Longrightarrow> v \<noteq> w"
    proof
      fix v u assume "(v, u) \<in> set (wire s)" "v = w"
      with D(2) [of v u] Emit(6) show False by auto
    qed
    show ?thesis
      unfolding inv_wire_def
    proof (intro conjI allI impI)
      show "length (calls s') = length (workers (pool s'))" using Emit len by simp
      show "distinct (map fst (wire s'))" using Emit dist by simp
    next
      fix v u assume "(v, u) \<in> set (wire s')"
      then have m: "(v, u) \<in> set (wire s)" using Emit by simp
      from now [OF m] D [OF m] Emit
      show "v < length (calls s')" "\<exists>a. calls s' ! v = AwaitingReply a"
        "\<exists>idx. workers (pool s') ! v = Running idx u"
        by auto
    qed
  qed
qed

lemma inv_wire_init: "inv_wire (reqInit c ctx0 urls)"
  by (simp add: inv_wire_def reqInit_def Check_init_def)

lemma inv_wire_exec:
  assumes "reqExec c nr urls evs s = Some s'" and "inv_wire s"
  shows "inv_wire s'"
  using assms
proof (induction evs arbitrary: s)
  case Nil
  then show ?case by simp
next
  case (Cons ev evs)
  then obtain s1 where s1: "reqStep c nr urls ev s = Some s1" "reqExec c nr urls evs s1 = Some s'"
    by (auto split: option.splits)
  from Cons.IH [OF s1(2) inv_wire_step [OF s1(1) Cons.prems(2)]] show ?case .
qed

lemma wire_bound:
  assumes "inv_wire s"
  shows "length (wire s) \<le> length (workers (pool s))"
proof -
  from assms have "distinct (map fst (wire s))"
    and "set (map fst (wire s)) \<subseteq> {..<length (workers (pool s))}"
    unfolding inv_wire_def by auto
  then have "length (map fst (wire s)) \<le> card {..<length (workers (pool s))}"
    by (metis card_mono distinct_card finite_lessThan)
  then show ?thesis by simp
qed

lemma inv_callsD:
  assumes "inv_calls c nr s" and "v < length (workers (pool s))"
    and "workers (pool s) ! v = Running idx url"
  shows "case calls s ! v of
           NotCalled \<Rightarrow> False
         | AtLoop a le \<Rightarrow>
             0 \<le> a \<and>
             (\<exists>h. \<forall>dr. (\<forall>k. 1 \<le> k \<and> k \<le> a \<longrightarrow> dr k = h k) \<longrightarrow>
                checkOne c nr dr url = checkOne_loop c nr dr url a le)
         | AwaitingReply a \<Rightarrow>
             1 \<le> a \<and> nr url = None \<and> a - 1 \<le> retries c \<and>
             (\<exists>h le. \<forall>dr. (\<forall>k. 1 \<le> k \<and> k < a \<longrightarrow> dr k = h k) \<longrightarrow>
                checkOne c nr dr url = checkOne_loop c nr dr url (a - 1) le)
         | Returning res \<Rightarrow> (\<exists>doReq. res = checkOne c nr doReq url)"
  using assms unfolding inv_calls_def by blast

lemma inv_calls_other:
  assumes "inv_calls c nr s"
    and "length (workers (pool s')) = length (workers (pool s))"
    and "\<And>v idx url. v < length (workers (pool s)) \<Longrightarrow> v \<noteq> w \<Longrightarrow>
           workers (pool s') ! v = Running idx url \<Longrightarrow>
           workers (pool s) ! v = Running idx url \<and> calls s' ! v = calls s ! v"
    and "\<And>idx url. w < length (workers (pool s)) \<Longrightarrow>
           workers (pool s') ! w = Running idx url \<Longrightarrow>
           (case calls s' ! w of
              NotCalled \<Rightarrow> False
            | AtLoop a le \<Rightarrow>
                0 \<le> a \<and>
                (\<exists>h. \<forall>dr. (\<forall>k. 1 \<le> k \<and> k \<le> a \<longrightarrow> dr k = h k) \<longrightarrow>
                   checkOne c nr dr url = checkOne_loop c nr dr url a le)
            | AwaitingReply a \<Rightarrow>
                1 \<le> a \<and> nr url = None \<and> a - 1 \<le> retries c \<and>
                (\<exists>h le. \<forall>dr. (\<forall>k. 1 \<le> k \<and> k < a \<longrightarrow> dr k = h k) \<longrightarrow>
                   checkOne c nr dr url = checkOne_loop c nr dr url (a - 1) le)
            | Returning res \<Rightarrow> (\<exists>doReq. res = checkOne c nr doReq url))"
  shows "inv_calls c nr s'"
  unfolding inv_calls_def
proof (intro allI impI)
  fix v idx url
  assume a: "v < length (workers (pool s')) \<and> workers (pool s') ! v = Running idx url"
  show "case calls s' ! v of
           NotCalled \<Rightarrow> False
         | AtLoop a le \<Rightarrow>
             0 \<le> a \<and>
             (\<exists>h. \<forall>dr. (\<forall>k. 1 \<le> k \<and> k \<le> a \<longrightarrow> dr k = h k) \<longrightarrow>
                checkOne c nr dr url = checkOne_loop c nr dr url a le)
         | AwaitingReply a \<Rightarrow>
             1 \<le> a \<and> nr url = None \<and> a - 1 \<le> retries c \<and>
             (\<exists>h le. \<forall>dr. (\<forall>k. 1 \<le> k \<and> k < a \<longrightarrow> dr k = h k) \<longrightarrow>
                checkOne c nr dr url = checkOne_loop c nr dr url (a - 1) le)
         | Returning res \<Rightarrow> (\<exists>doReq. res = checkOne c nr doReq url)"
  proof (cases "v = w")
    case True
    with a assms(2) assms(4) [of idx url] show ?thesis by simp
  next
    case False
    with a assms(2) assms(3) [of v idx url]
    have o: "workers (pool s) ! v = Running idx url" "calls s' ! v = calls s ! v"
      "v < length (workers (pool s))" by simp_all
    from inv_callsD [OF assms(1) o(3) o(1)] o(2) show ?thesis by simp
  qed
qed

lemma inv_calls_step:
  assumes "reqStep c nr urls ev s = Some s'" and "inv_calls c nr s" and "inv_wire s"
  shows "inv_calls c nr s'"
proof -
  from assms(3) have len: "length (calls s) = length (workers (pool s))"
    unfolding inv_wire_def by simp
  from assms(1) show ?thesis
  proof (cases rule: reqStep_cases)
    case (PoolDispatch w p)
    note d = step_Dispatch [OF PoolDispatch(2)]
    show ?thesis
    proof (rule inv_calls_other [OF assms(2), where w = w])
      show "length (workers (pool s')) = length (workers (pool s))"
        using PoolDispatch d(3) by simp
    next
      fix v idx url
      assume "v < length (workers (pool s))" "v \<noteq> w" "workers (pool s') ! v = Running idx url"
      with PoolDispatch d(3)
      show "workers (pool s) ! v = Running idx url \<and> calls s' ! v = calls s ! v" by simp
    next
      fix idx url
      assume "w < length (workers (pool s))" "workers (pool s') ! w = Running idx url"
      have "calls s' ! w = AtLoop 0 None" using PoolDispatch d(1) len by simp
      then show "case calls s' ! w of
              NotCalled \<Rightarrow> False
            | AtLoop a le \<Rightarrow>
                0 \<le> a \<and>
                (\<exists>h. \<forall>dr. (\<forall>k. 1 \<le> k \<and> k \<le> a \<longrightarrow> dr k = h k) \<longrightarrow>
                   checkOne c nr dr url = checkOne_loop c nr dr url a le)
            | AwaitingReply a \<Rightarrow>
                1 \<le> a \<and> nr url = None \<and> a - 1 \<le> retries c \<and>
                (\<exists>h le. \<forall>dr. (\<forall>k. 1 \<le> k \<and> k < a \<longrightarrow> dr k = h k) \<longrightarrow>
                   checkOne c nr dr url = checkOne_loop c nr dr url (a - 1) le)
            | Returning res \<Rightarrow> (\<exists>doReq. res = checkOne c nr doReq url)"
        by (simp add: checkOne_def)
    qed
  next
    case (PoolOther pev p)
    have l: "length (workers p) = length (workers (pool s))"
      by (rule step_workers_length [OF PoolOther(4)])
    show ?thesis
      unfolding inv_calls_def
    proof (intro allI impI)
      fix v idx url
      assume a: "v < length (workers (pool s')) \<and> workers (pool s') ! v = Running idx url"
      with PoolOther l have v: "v < length (workers p)" "workers p ! v = Running idx url"
        by simp_all
      from step_Running_old [OF PoolOther(4,2) v] v(1) l
      have "workers (pool s) ! v = Running idx url" "v < length (workers (pool s))" by simp_all
      from inv_callsD [OF assms(2) this(2,1)] PoolOther(5)
      show "case calls s' ! v of
           NotCalled \<Rightarrow> False
         | AtLoop a le \<Rightarrow>
             0 \<le> a \<and>
             (\<exists>h. \<forall>dr. (\<forall>k. 1 \<le> k \<and> k \<le> a \<longrightarrow> dr k = h k) \<longrightarrow>
                checkOne c nr dr url = checkOne_loop c nr dr url a le)
         | AwaitingReply a \<Rightarrow>
             1 \<le> a \<and> nr url = None \<and> a - 1 \<le> retries c \<and>
             (\<exists>h le. \<forall>dr. (\<forall>k. 1 \<le> k \<and> k < a \<longrightarrow> dr k = h k) \<longrightarrow>
                checkOne c nr dr url = checkOne_loop c nr dr url (a - 1) le)
         | Returning res \<Rightarrow> (\<exists>doReq. res = checkOne c nr doReq url)"
        by simp
    qed
  next
    case (BuildFails w idx url a le err)
    from inv_callsD [OF assms(2) BuildFails(3,5)] BuildFails(6)
    obtain h where h: "checkOne c nr h url = checkOne_loop c nr h url a le" by auto
    have res: "noResponse url (a + 1) (Some err) = checkOne c nr h url"
      using h BuildFails(7,8) by (simp add: checkOne_loop.simps [of c nr h url a le])
    show ?thesis
    proof (rule inv_calls_other [OF assms(2), where w = w])
      show "length (workers (pool s')) = length (workers (pool s))" using BuildFails by simp
    next
      fix v idx' url'
      assume "v < length (workers (pool s))" "v \<noteq> w" "workers (pool s') ! v = Running idx' url'"
      with BuildFails
      show "workers (pool s) ! v = Running idx' url' \<and> calls s' ! v = calls s ! v" by simp
    next
      fix idx' url'
      assume "w < length (workers (pool s))" "workers (pool s') ! w = Running idx' url'"
      with BuildFails have "url' = url" by simp
      moreover have "calls s' ! w = Returning (noResponse url (a + 1) (Some err))"
        using BuildFails by simp
      ultimately show "case calls s' ! w of
              NotCalled \<Rightarrow> False
            | AtLoop a le \<Rightarrow>
                0 \<le> a \<and>
                (\<exists>h. \<forall>dr. (\<forall>k. 1 \<le> k \<and> k \<le> a \<longrightarrow> dr k = h k) \<longrightarrow>
                   checkOne c nr dr url' = checkOne_loop c nr dr url' a le)
            | AwaitingReply a \<Rightarrow>
                1 \<le> a \<and> nr url' = None \<and> a - 1 \<le> retries c \<and>
                (\<exists>h le. \<forall>dr. (\<forall>k. 1 \<le> k \<and> k < a \<longrightarrow> dr k = h k) \<longrightarrow>
                   checkOne c nr dr url' = checkOne_loop c nr dr url' (a - 1) le)
            | Returning res \<Rightarrow> (\<exists>doReq. res = checkOne c nr doReq url')"
        using res by auto
    qed
  next
    case (Exhausted w idx url a le)
    from inv_callsD [OF assms(2) Exhausted(3,5)] Exhausted(6)
    obtain h where h: "checkOne c nr h url = checkOne_loop c nr h url a le" by auto
    have res: "noResponse url a le = checkOne c nr h url"
      using h Exhausted(7) by (simp add: checkOne_loop.simps [of c nr h url a le])
    show ?thesis
    proof (rule inv_calls_other [OF assms(2), where w = w])
      show "length (workers (pool s')) = length (workers (pool s))" using Exhausted by simp
    next
      fix v idx' url'
      assume "v < length (workers (pool s))" "v \<noteq> w" "workers (pool s') ! v = Running idx' url'"
      with Exhausted
      show "workers (pool s) ! v = Running idx' url' \<and> calls s' ! v = calls s ! v" by simp
    next
      fix idx' url'
      assume "w < length (workers (pool s))" "workers (pool s') ! w = Running idx' url'"
      with Exhausted have "url' = url" by simp
      moreover have "calls s' ! w = Returning (noResponse url a le)"
        using Exhausted by simp
      ultimately show "case calls s' ! w of
              NotCalled \<Rightarrow> False
            | AtLoop a le \<Rightarrow>
                0 \<le> a \<and>
                (\<exists>h. \<forall>dr. (\<forall>k. 1 \<le> k \<and> k \<le> a \<longrightarrow> dr k = h k) \<longrightarrow>
                   checkOne c nr dr url' = checkOne_loop c nr dr url' a le)
            | AwaitingReply a \<Rightarrow>
                1 \<le> a \<and> nr url' = None \<and> a - 1 \<le> retries c \<and>
                (\<exists>h le. \<forall>dr. (\<forall>k. 1 \<le> k \<and> k < a \<longrightarrow> dr k = h k) \<longrightarrow>
                   checkOne c nr dr url' = checkOne_loop c nr dr url' (a - 1) le)
            | Returning res \<Rightarrow> (\<exists>doReq. res = checkOne c nr doReq url')"
        using res by auto
    qed
  next
    case (Sends w idx url a le)
    from inv_callsD [OF assms(2) Sends(3,5)] Sends(6)
    obtain h where a0: "0 \<le> a"
      and h: "\<forall>dr. (\<forall>k. 1 \<le> k \<and> k \<le> a \<longrightarrow> dr k = h k) \<longrightarrow>
                checkOne c nr dr url = checkOne_loop c nr dr url a le" by auto
    have link: "\<exists>h le. \<forall>dr. (\<forall>k. 1 \<le> k \<and> k < a + 1 \<longrightarrow> dr k = h k) \<longrightarrow>
                   checkOne c nr dr url = checkOne_loop c nr dr url (a + 1 - 1) le"
      using h by (intro exI [of _ h] exI [of _ le]) simp
    show ?thesis
    proof (rule inv_calls_other [OF assms(2), where w = w])
      show "length (workers (pool s')) = length (workers (pool s))" using Sends by simp
    next
      fix v idx' url'
      assume "v < length (workers (pool s))" "v \<noteq> w" "workers (pool s') ! v = Running idx' url'"
      with Sends
      show "workers (pool s) ! v = Running idx' url' \<and> calls s' ! v = calls s ! v" by simp
    next
      fix idx' url'
      assume "w < length (workers (pool s))" "workers (pool s') ! w = Running idx' url'"
      with Sends have "url' = url" by simp
      moreover have "calls s' ! w = AwaitingReply (a + 1)"
        using Sends by simp
      ultimately show "case calls s' ! w of
              NotCalled \<Rightarrow> False
            | AtLoop a le \<Rightarrow>
                0 \<le> a \<and>
                (\<exists>h. \<forall>dr. (\<forall>k. 1 \<le> k \<and> k \<le> a \<longrightarrow> dr k = h k) \<longrightarrow>
                   checkOne c nr dr url' = checkOne_loop c nr dr url' a le)
            | AwaitingReply a \<Rightarrow>
                1 \<le> a \<and> nr url' = None \<and> a - 1 \<le> retries c \<and>
                (\<exists>h le. \<forall>dr. (\<forall>k. 1 \<le> k \<and> k < a \<longrightarrow> dr k = h k) \<longrightarrow>
                   checkOne c nr dr url' = checkOne_loop c nr dr url' (a - 1) le)
            | Returning res \<Rightarrow> (\<exists>doReq. res = checkOne c nr doReq url')"
        using link a0 Sends(7,8) by simp
    qed
  next
    case (Reply w r idx url a)
    from inv_callsD [OF assms(2) Reply(3,5)] Reply(6)
    obtain h le where a1: "1 \<le> a" and nr: "nr url = None" and ar: "a - 1 \<le> retries c"
      and h: "\<forall>dr. (\<forall>k. 1 \<le> k \<and> k < a \<longrightarrow> dr k = h k) \<longrightarrow>
                checkOne c nr dr url = checkOne_loop c nr dr url (a - 1) le" by auto
    have unf: "\<And>dr. (\<forall>k. 1 \<le> k \<and> k \<le> a \<longrightarrow> dr k = (h(a := r)) k) \<Longrightarrow>
        checkOne c nr dr url =
          (case r of
             Failed err \<Rightarrow>
               if shouldRetry err \<and> a \<le> retries c
               then checkOne_loop c nr dr url a (Some err)
               else noResponse url a (Some err)
           | Response code \<Rightarrow>
               \<lparr>URL = url, OK = (200 \<le> code \<and> code < 400), Status = code, Error = [],
                Attempts = a\<rparr>)"
    proof -
      fix dr assume ag: "\<forall>k. 1 \<le> k \<and> k \<le> a \<longrightarrow> dr k = (h(a := r)) k"
      then have "\<forall>k. 1 \<le> k \<and> k < a \<longrightarrow> dr k = h k" by simp
      with h have "checkOne c nr dr url = checkOne_loop c nr dr url (a - 1) le" by blast
      moreover from ag a1 have "dr (a - 1 + 1) = r" by simp
      ultimately show "checkOne c nr dr url =
          (case r of
             Failed err \<Rightarrow>
               if shouldRetry err \<and> a \<le> retries c
               then checkOne_loop c nr dr url a (Some err)
               else noResponse url a (Some err)
           | Response code \<Rightarrow>
               \<lparr>URL = url, OK = (200 \<le> code \<and> code < 400), Status = code, Error = [],
                Attempts = a\<rparr>)"
        using nr ar by (cases r) (simp_all add: checkOne_loop.simps [of c nr dr url "a - 1" le])
    qed
    show ?thesis
    proof (rule inv_calls_other [OF assms(2), where w = w])
      show "length (workers (pool s')) = length (workers (pool s))" using Reply by simp
    next
      fix v idx' url'
      assume "v < length (workers (pool s))" "v \<noteq> w" "workers (pool s') ! v = Running idx' url'"
      with Reply
      show "workers (pool s) ! v = Running idx' url' \<and> calls s' ! v = calls s ! v" by simp
    next
      fix idx' url'
      assume "w < length (workers (pool s))" "workers (pool s') ! w = Running idx' url'"
      with Reply have u: "url' = url" by simp
      have cw: "calls s' ! w = (case r of
                        Failed err \<Rightarrow>
                          if shouldRetry err \<and> a \<le> retries c
                          then AtLoop a (Some err)
                          else Returning (noResponse url a (Some err))
                      | Response code \<Rightarrow>
                          Returning \<lparr>URL = url, OK = (200 \<le> code \<and> code < 400),
                                     Status = code, Error = [], Attempts = a\<rparr>)"
        using Reply by simp
      show "case calls s' ! w of
              NotCalled \<Rightarrow> False
            | AtLoop a le \<Rightarrow>
                0 \<le> a \<and>
                (\<exists>h. \<forall>dr. (\<forall>k. 1 \<le> k \<and> k \<le> a \<longrightarrow> dr k = h k) \<longrightarrow>
                   checkOne c nr dr url' = checkOne_loop c nr dr url' a le)
            | AwaitingReply a \<Rightarrow>
                1 \<le> a \<and> nr url' = None \<and> a - 1 \<le> retries c \<and>
                (\<exists>h le. \<forall>dr. (\<forall>k. 1 \<le> k \<and> k < a \<longrightarrow> dr k = h k) \<longrightarrow>
                   checkOne c nr dr url' = checkOne_loop c nr dr url' (a - 1) le)
            | Returning res \<Rightarrow> (\<exists>doReq. res = checkOne c nr doReq url')"
      proof (cases r)
        case (Response code)
        from unf [of "h(a := r)"] Response
        have "\<lparr>URL = url, OK = (200 \<le> code \<and> code < 400), Status = code, Error = [],
                Attempts = a\<rparr> = checkOne c nr (h(a := r)) url" by simp
        with cw Response u show ?thesis by auto
      next
        case (Failed err)
        show ?thesis
        proof (cases "shouldRetry err \<and> a \<le> retries c")
          case True
          have "\<forall>dr. (\<forall>k. 1 \<le> k \<and> k \<le> a \<longrightarrow> dr k = (h(a := r)) k) \<longrightarrow>
                   checkOne c nr dr url = checkOne_loop c nr dr url a (Some err)"
            using unf Failed True by simp
          then have "\<exists>h'. \<forall>dr. (\<forall>k. 1 \<le> k \<and> k \<le> a \<longrightarrow> dr k = h' k) \<longrightarrow>
                   checkOne c nr dr url = checkOne_loop c nr dr url a (Some err)"
            by (rule exI [of _ "h(a := r)"])
          with cw Failed True u a1 show ?thesis by simp
        next
          case False
          from unf [of "h(a := r)"] Failed False
          have "noResponse url a (Some err) = checkOne c nr (h(a := r)) url" by auto
          with cw Failed False u show ?thesis by auto
        qed
      qed
    qed
  next
    case (EmitPanic w idx url res)
    then have "calls s' = calls s" "workers (pool s') = workers (pool s)" by simp_all
    with assms(2) show ?thesis unfolding inv_calls_def by simp
  next
    case (Emit w idx url res)
    show ?thesis
    proof (rule inv_calls_other [OF assms(2), where w = w])
      show "length (workers (pool s')) = length (workers (pool s))" using Emit by simp
    next
      fix v idx' url'
      assume "v < length (workers (pool s))" "v \<noteq> w" "workers (pool s') ! v = Running idx' url'"
      with Emit
      show "workers (pool s) ! v = Running idx' url' \<and> calls s' ! v = calls s ! v" by simp
    next
      fix idx' url'
      assume "w < length (workers (pool s))" "workers (pool s') ! w = Running idx' url'"
      with Emit have False by simp
      then show "case calls s' ! w of
              NotCalled \<Rightarrow> False
            | AtLoop a le \<Rightarrow>
                0 \<le> a \<and>
                (\<exists>h. \<forall>dr. (\<forall>k. 1 \<le> k \<and> k \<le> a \<longrightarrow> dr k = h k) \<longrightarrow>
                   checkOne c nr dr url' = checkOne_loop c nr dr url' a le)
            | AwaitingReply a \<Rightarrow>
                1 \<le> a \<and> nr url' = None \<and> a - 1 \<le> retries c \<and>
                (\<exists>h le. \<forall>dr. (\<forall>k. 1 \<le> k \<and> k < a \<longrightarrow> dr k = h k) \<longrightarrow>
                   checkOne c nr dr url' = checkOne_loop c nr dr url' (a - 1) le)
            | Returning res \<Rightarrow> (\<exists>doReq. res = checkOne c nr doReq url')" ..
    qed
  qed
qed

lemma inv_sent_step:
  assumes "reqStep c nr urls ev s = Some s'" and "inv_sent s" and "inv_wire s"
  shows "inv_sent s'"
proof -
  from assms(3) have len: "length (calls s) = length (workers (pool s))"
    unfolding inv_wire_def by simp
  have old: "\<And>w idx url a. w < length (workers (pool s)) \<Longrightarrow>
      workers (pool s) ! w = Running idx url \<Longrightarrow> calls s ! w = AwaitingReply a \<Longrightarrow>
      (w, url) \<in> set (wire s)"
    using assms(2) unfolding inv_sent_def by blast
  from assms(1) show ?thesis
  proof (cases rule: reqStep_cases)
    case (PoolDispatch w p)
    note d = step_Dispatch [OF PoolDispatch(2)]
    show ?thesis
      unfolding inv_sent_def
    proof (intro allI impI)
      fix v idx url a
      assume h: "v < length (workers (pool s')) \<and> workers (pool s') ! v = Running idx url \<and>
        calls s' ! v = AwaitingReply a"
      with PoolDispatch d len have "v \<noteq> w" by auto
      with h PoolDispatch d(3) old [of v idx url a] show "(v, url) \<in> set (wire s')" by simp
    qed
  next
    case (PoolOther pev p)
    have l: "length (workers p) = length (workers (pool s))"
      by (rule step_workers_length [OF PoolOther(4)])
    show ?thesis
      unfolding inv_sent_def
    proof (intro allI impI)
      fix v idx url a
      assume h: "v < length (workers (pool s')) \<and> workers (pool s') ! v = Running idx url \<and>
        calls s' ! v = AwaitingReply a"
      with PoolOther l have v: "v < length (workers p)" "workers p ! v = Running idx url"
        by simp_all
      from step_Running_old [OF PoolOther(4,2) v] v(1) l h PoolOther(5) old [of v idx url a]
      show "(v, url) \<in> set (wire s')" by simp
    qed
  next
    case (BuildFails w idx url a le err)
    show ?thesis
      unfolding inv_sent_def
    proof (intro allI impI)
      fix v idx' url' a'
      assume h: "v < length (workers (pool s')) \<and> workers (pool s') ! v = Running idx' url' \<and>
        calls s' ! v = AwaitingReply a'"
      with BuildFails have "v \<noteq> w" by auto
      with h BuildFails old [of v idx' url' a'] show "(v, url') \<in> set (wire s')" by simp
    qed
  next
    case (Exhausted w idx url a le)
    show ?thesis
      unfolding inv_sent_def
    proof (intro allI impI)
      fix v idx' url' a'
      assume h: "v < length (workers (pool s')) \<and> workers (pool s') ! v = Running idx' url' \<and>
        calls s' ! v = AwaitingReply a'"
      with Exhausted have "v \<noteq> w" by auto
      with h Exhausted old [of v idx' url' a'] show "(v, url') \<in> set (wire s')" by simp
    qed
  next
    case (Sends w idx url a le)
    show ?thesis
      unfolding inv_sent_def
    proof (intro allI impI)
      fix v idx' url' a'
      assume h: "v < length (workers (pool s')) \<and> workers (pool s') ! v = Running idx' url' \<and>
        calls s' ! v = AwaitingReply a'"
      show "(v, url') \<in> set (wire s')"
      proof (cases "v = w")
        case True
        with h Sends show ?thesis by simp
      next
        case False
        with h Sends old [of v idx' url' a'] show ?thesis by simp
      qed
    qed
  next
    case (Reply w r idx url a)
    have nw: "\<And>a'. calls s' ! w \<noteq> AwaitingReply a'"
      using Reply by (cases r) simp_all
    show ?thesis
      unfolding inv_sent_def
    proof (intro allI impI)
      fix v idx' url' a'
      assume h: "v < length (workers (pool s')) \<and> workers (pool s') ! v = Running idx' url' \<and>
        calls s' ! v = AwaitingReply a'"
      with nw have ne: "v \<noteq> w" by auto
      with h Reply old [of v idx' url' a'] have "(v, url') \<in> set (wire s)" by simp
      with ne have "(v, url') \<in> set (remove1 (w, url) (wire s))" by simp
      with Reply show "(v, url') \<in> set (wire s')" by simp
    qed
  next
    case (EmitPanic w idx url res)
    then have "calls s' = calls s" "workers (pool s') = workers (pool s)" "wire s' = wire s"
      by simp_all
    with assms(2) show ?thesis unfolding inv_sent_def by simp
  next
    case (Emit w idx url res)
    show ?thesis
      unfolding inv_sent_def
    proof (intro allI impI)
      fix v idx' url' a'
      assume h: "v < length (workers (pool s')) \<and> workers (pool s') ! v = Running idx' url' \<and>
        calls s' ! v = AwaitingReply a'"
      with Emit have "v \<noteq> w" by auto
      with h Emit old [of v idx' url' a'] show "(v, url') \<in> set (wire s')" by simp
    qed
  qed
qed

lemma reqStep_pool:
  assumes "reqStep c nr urls ev s = Some s'" and "inv_calls c nr s"
  shows "pool s' = pool s \<or> (\<exists>pev. step c nr urls pev (pool s) = Some (pool s'))"
  using assms(1)
proof (cases rule: reqStep_cases)
  case (PoolDispatch w p)
  then show ?thesis by auto
next
  case (PoolOther pev p)
  then show ?thesis by auto
next
  case (EmitPanic w idx url res)
  then have "step c nr urls (Finish w (\<lambda>k. Response 200)) (pool s) = Some (pool s')"
    by (simp add: step_def)
  then show ?thesis by blast
next
  case (Emit w idx url res)
  from inv_callsD [OF assms(2) Emit(3,5)] Emit(6)
  obtain doReq where "res = checkOne c nr doReq url" by auto
  with Emit have "step c nr urls (Finish w doReq) (pool s) = Some (pool s')"
    by (simp add: step_def)
  then show ?thesis by blast
qed simp_all

lemma inv_requests_step:
  assumes "reqStep c nr urls ev s = Some s'" and "inv_requests c nr s"
  shows "inv_requests c nr s'"
proof -
  from assms(2) have i: "inv_wire s" "inv_calls c nr s" "inv_sent s"
    unfolding inv_requests_def by simp_all
  show ?thesis
    unfolding inv_requests_def
    using inv_wire_step [OF assms(1) i(1)] inv_calls_step [OF assms(1) i(2,1)]
      inv_sent_step [OF assms(1) i(3,1)]
    by simp
qed

lemma inv_requests_init: "inv_requests c nr (reqInit c ctx0 urls)"
  by (simp add: inv_requests_def inv_wire_def inv_calls_def inv_sent_def reqInit_def
      Check_init_def)

lemma reqExec_pool:
  assumes "reqExec c nr urls evs s = Some s'" and "inv_requests c nr s"
  shows "inv_requests c nr s' \<and> (\<exists>psched. exec c nr urls psched (pool s) = Some (pool s'))"
  using assms
proof (induction evs arbitrary: s)
  case Nil
  then have "exec c nr urls [] (pool s) = Some (pool s')" and "inv_requests c nr s'"
    by simp_all
  then show ?case by blast
next
  case (Cons ev evs)
  then obtain s1 where s1: "reqStep c nr urls ev s = Some s1" "reqExec c nr urls evs s1 = Some s'"
    by (auto split: option.splits)
  note i1 = inv_requests_step [OF s1(1) Cons.prems(2)]
  from Cons.IH [OF s1(2) i1] obtain psched
    where r: "inv_requests c nr s'" "exec c nr urls psched (pool s1) = Some (pool s')" by blast
  from Cons.prems(2) have "inv_calls c nr s" unfolding inv_requests_def by simp
  from reqStep_pool [OF s1(1) this]
  show ?case
  proof
    assume "pool s1 = pool s"
    with r show ?thesis by auto
  next
    assume "\<exists>pev. step c nr urls pev (pool s) = Some (pool s1)"
    then obtain pev where "step c nr urls pev (pool s) = Some (pool s1)" by blast
    with r(2) have "exec c nr urls (pev # psched) (pool s) = Some (pool s')" by simp
    with r(1) show ?thesis by blast
  qed
qed

text \<open>
  Claim C9. For every concurrency limit \<open>C \<ge> 1\<close> and every list of URLs, at no moment
  of a call of \<^verbatim>\<open>Check\<close> are more than \<open>C\<close> HTTP requests in flight. The pool has exactly
  \<open>C\<close> workers; no worker has two requests in flight, for it holds one job at a time and
  sends the next request only after the last one was answered; and the requests in flight
  are all there are, one for every worker inside \<^verbatim>\<open>c.client.Do\<close>. The goroutines move as
  in the runs of \<^verbatim>\<open>Check\<close> above: what holds of those holds here.
\<close>

theorem Check_requests_in_flight:
  assumes "1 \<le> concurrency c"
    and "reqExec c nr urls sched (reqInit c ctx0 urls) = Some s"
  shows "int (length (wire s)) \<le> concurrency c \<and>
         distinct (map fst (wire s)) \<and>
         int (length (workers (pool s))) = concurrency c \<and>
         (\<forall>w idx url a. w < length (workers (pool s)) \<and>
            workers (pool s) ! w = Running idx url \<and> calls s ! w = AwaitingReply a \<longrightarrow>
            (w, url) \<in> set (wire s)) \<and>
         (\<exists>psched. exec c nr urls psched (Check_init c ctx0 urls) = Some (pool s))"
proof -
  from reqExec_pool [OF assms(2) inv_requests_init]
  obtain psched where i: "inv_requests c nr s"
    and p: "exec c nr urls psched (pool (reqInit c ctx0 urls)) = Some (pool s)" by blast
  from p have p': "exec c nr urls psched (Check_init c ctx0 urls) = Some (pool s)"
    by (simp add: reqInit_def)
  from invariant_reachable [OF p'] have "inv_shape c urls (pool s)"
    unfolding invariant_def by simp
  then have l: "length (workers (pool s)) = nat (concurrency c)" by (simp add: inv_shape_def)
  from i have w: "inv_wire s" and st: "inv_sent s" unfolding inv_requests_def by simp_all
  from wire_bound [OF w] l assms(1) have 1: "int (length (wire s)) \<le> concurrency c" by simp
  from w have 2: "distinct (map fst (wire s))" unfolding inv_wire_def by simp
  from l assms(1) have 3: "int (length (workers (pool s))) = concurrency c" by simp
  from st have 4: "\<forall>w idx url a. w < length (workers (pool s)) \<and>
            workers (pool s) ! w = Running idx url \<and> calls s ! w = AwaitingReply a \<longrightarrow>
            (w, url) \<in> set (wire s)"
    unfolding inv_sent_def .
  from p' have 5: "\<exists>psched. exec c nr urls psched (Check_init c ctx0 urls) = Some (pool s)" ..
  from 1 2 3 4 5 show ?thesis by (intro conjI)
qed

theorem Check_requests_in_flight_witness:
  "1 \<le> concurrency (NewChecker 3 (2 * second) 0 None) \<and>
   wire (the (reqExec (NewChecker 3 (2 * second) 0 None) (\<lambda>u. None)
       [''/0'', ''/1'', ''/2'', ''/3'', ''/4'', ''/5'', ''/6'', ''/7'']
       [Pool (Dispatch 2), Pool (Dispatch 0), Attempt 2, Pool (Dispatch 1), Attempt 0, Attempt 1]
       (reqInit (NewChecker 3 (2 * second) 0 None) (Some Background)
          [''/0'', ''/1'', ''/2'', ''/3'', ''/4'', ''/5'', ''/6'', ''/7''])))
     = [(2, ''/0''), (0, ''/1''), (1, ''/2'')] \<and>
   reqStep (NewChecker 3 (2 * second) 0 None) (\<lambda>u. None)
       [''/0'', ''/1'', ''/2'', ''/3'', ''/4'', ''/5'', ''/6'', ''/7'']
       (Attempt 0)
       (the (reqExec (NewChecker 3 (2 * second) 0 None) (\<lambda>u. None)
       [''/0'', ''/1'', ''/2'', ''/3'', ''/4'', ''/5'', ''/6'', ''/7'']
       [Pool (Dispatch 2), Pool (Dispatch 0), Attempt 2, Pool (Dispatch 1), Attempt 0, Attempt 1]
       (reqInit (NewChecker 3 (2 * second) 0 None) (Some Background)
          [''/0'', ''/1'', ''/2'', ''/3'', ''/4'', ''/5'', ''/6'', ''/7'']))) = None \<and>
   reqStep (NewChecker 3 (2 * second) 0 None) (\<lambda>u. None)
       [''/0'', ''/1'', ''/2'', ''/3'', ''/4'', ''/5'', ''/6'', ''/7'']
       (Pool (Dispatch 0))
       (the (reqExec (NewChecker 3 (2 * second) 0 None) (\<lambda>u. None)
       [''/0'', ''/1'', ''/2'', ''/3'', ''/4'', ''/5'', ''/6'', ''/7'']
       [Pool (Dispatch 2), Pool (Dispatch 0), Attempt 2, Pool (Dispatch 1), Attempt 0, Attempt 1]
       (reqInit (NewChecker 3 (2 * second) 0 None) (Some Background)
          [''/0'', ''/1'', ''/2'', ''/3'', ''/4'', ''/5'', ''/6'', ''/7'']))) = None \<and>
   wire (the (reqExec (NewChecker 3 (2 * second) 0 None) (\<lambda>u. None)
       [''/0'', ''/1'', ''/2'', ''/3'', ''/4'', ''/5'', ''/6'', ''/7'']
       [Pool (Dispatch 2), Pool (Dispatch 0), Attempt 2, Pool (Dispatch 1), Attempt 0, Attempt 1,
        Reply 0 (Response 200), Emit 0, Pool (Dispatch 0), Attempt 0]
       (reqInit (NewChecker 3 (2 * second) 0 None) (Some Background)
          [''/0'', ''/1'', ''/2'', ''/3'', ''/4'', ''/5'', ''/6'', ''/7''])))
     = [(2, ''/0''), (1, ''/2''), (0, ''/3'')]"
proof -
  let ?c = "NewChecker 3 (2 * second) 0 None"
  let ?urls = "[''/0'', ''/1'', ''/2'', ''/3'', ''/4'', ''/5'', ''/6'', ''/7'']"
  let ?sched = "[Pool (Dispatch 2), Pool (Dispatch 0), Attempt 2, Pool (Dispatch 1), Attempt 0,
      Attempt 1]"
  let ?sched2 = "[Pool (Dispatch 2), Pool (Dispatch 0), Attempt 2, Pool (Dispatch 1), Attempt 0,
      Attempt 1, Reply 0 (Response 200), Emit 0, Pool (Dispatch 0), Attempt 0]"
  let ?s = "the (reqExec ?c (\<lambda>u. None) ?urls ?sched (reqInit ?c (Some Background) ?urls))"
  let ?s2 = "the (reqExec ?c (\<lambda>u. None) ?urls ?sched2 (reqInit ?c (Some Background) ?urls))"
  have c: "1 \<le> concurrency ?c" by (simp add: NewChecker_def)
  have e: "reqExec ?c (\<lambda>u. None) ?urls ?sched (reqInit ?c (Some Background) ?urls) = Some ?s"
    by (simp add: reqInit_def reqStep_def Check_init_def step_def NewChecker_def eval_nat_numeral)
  have e2: "reqExec ?c (\<lambda>u. None) ?urls ?sched2 (reqInit ?c (Some Background) ?urls) = Some ?s2"
    by (simp add: reqInit_def reqStep_def Check_init_def step_def NewChecker_def eval_nat_numeral)
  have f: "wire ?s = [(2, ''/0''), (0, ''/1''), (1, ''/2'')]"
    by (simp add: reqInit_def reqStep_def Check_init_def step_def NewChecker_def eval_nat_numeral)
  have b1: "reqStep ?c (\<lambda>u. None) ?urls (Attempt 0) ?s = None"
    by (simp add: reqInit_def reqStep_def Check_init_def step_def NewChecker_def eval_nat_numeral)
  have b2: "reqStep ?c (\<lambda>u. None) ?urls (Pool (Dispatch 0)) ?s = None"
    by (simp add: reqInit_def reqStep_def Check_init_def step_def NewChecker_def eval_nat_numeral)
  have f2: "wire ?s2 = [(2, ''/0''), (1, ''/2''), (0, ''/3'')]"
    by (simp add: reqInit_def reqStep_def Check_init_def step_def NewChecker_def eval_nat_numeral)
  show ?thesis
    using Check_requests_in_flight [OF c e] Check_requests_in_flight [OF c e2]
    by (intro conjI c f b1 b2 f2)
qed

end
